theory Spec2Isabelle
  imports Main "HOL-Library.Word" "HOL-Library.Tree"
begin

unbundle bit_operations_syntax

section \<open>The abstractor and the tree state\<close>

text \<open>
  The engine of \<^verbatim>\<open>avl_tree.h\<close> is a template over an abstractor class that the
  consumer supplies. Handles are modelled as natural numbers with the null handle \<open>0\<close>,
  keys as integers, and the C++ \<^verbatim>\<open>int\<close> of comparison results as a 32-bit word read
  as signed. The member \<^verbatim>\<open>abs\<close> of type \<^verbatim>\<open>abs_plus_root\<close> (the abstractor together with
  the root handle) is the whole mutable state of a tree.
\<close>

type_synonym handle = nat

type_synonym cint = "32 word"

record abs_plus_root =
  lnk_lt :: "handle \<Rightarrow> handle"
  lnk_gt :: "handle \<Rightarrow> handle"
  bal :: "handle \<Rightarrow> int"
  keyv :: "handle \<Rightarrow> int"
  faulty :: "handle \<Rightarrow> bool"
  rd_err :: bool
  max_depth :: nat
  root :: handle

text \<open>
  Modelled from the spec: the abstractor class is the template parameter of
  \<^verbatim>\<open>base_avl_tree\<close> and is not part of the source file. Following section 4.1 of the
  specification, a node carries a less link, a greater link and a balance factor, keys
  are totally ordered, and a read of a link or of a balance factor may fail, which
  latches the read-error flag. The nodes whose storage cannot be read are those marked
  \<open>faulty\<close>; a failed read yields the null handle (respectively \<open>0\<close>).
\<close>

definition null :: handle where
  "null = 0"

definition get_less :: "abs_plus_root \<Rightarrow> handle \<Rightarrow> bool \<Rightarrow> handle \<times> abs_plus_root" where
  "get_less s h access =
     (if faulty s h then (null, s\<lparr>rd_err := True\<rparr>) else (lnk_lt s h, s))"

definition get_greater :: "abs_plus_root \<Rightarrow> handle \<Rightarrow> bool \<Rightarrow> handle \<times> abs_plus_root" where
  "get_greater s h access =
     (if faulty s h then (null, s\<lparr>rd_err := True\<rparr>) else (lnk_gt s h, s))"

definition set_less :: "abs_plus_root \<Rightarrow> handle \<Rightarrow> handle \<Rightarrow> abs_plus_root" where
  "set_less s h lh = s\<lparr>lnk_lt := (lnk_lt s)(h := lh)\<rparr>"

definition set_greater :: "abs_plus_root \<Rightarrow> handle \<Rightarrow> handle \<Rightarrow> abs_plus_root" where
  "set_greater s h gh = s\<lparr>lnk_gt := (lnk_gt s)(h := gh)\<rparr>"

definition get_balance_factor :: "abs_plus_root \<Rightarrow> handle \<Rightarrow> int \<times> abs_plus_root" where
  "get_balance_factor s h =
     (if faulty s h then (0, s\<lparr>rd_err := True\<rparr>) else (bal s h, s))"

definition set_balance_factor :: "abs_plus_root \<Rightarrow> handle \<Rightarrow> int \<Rightarrow> abs_plus_root" where
  "set_balance_factor s h b = s\<lparr>bal := (bal s)(h := b)\<rparr>"

definition compare_key_node :: "abs_plus_root \<Rightarrow> int \<Rightarrow> handle \<Rightarrow> cint" where
  "compare_key_node s k h =
     (if k < keyv s h then - 1 else if k = keyv s h then 0 else 1)"

definition compare_node_node :: "abs_plus_root \<Rightarrow> handle \<Rightarrow> handle \<Rightarrow> cint" where
  "compare_node_node s h1 h2 = compare_key_node s (keyv s h1) h2"

definition read_error :: "abs_plus_root \<Rightarrow> bool" where
  "read_error s = rd_err s"

text \<open>The protected forwarding members of \<^verbatim>\<open>base_avl_tree\<close> (lines 521-536).\<close>

definition get_lt :: "abs_plus_root \<Rightarrow> handle \<Rightarrow> bool \<Rightarrow> handle \<times> abs_plus_root" where
  "get_lt s h access = get_less s h access"

definition set_lt :: "abs_plus_root \<Rightarrow> handle \<Rightarrow> handle \<Rightarrow> abs_plus_root" where
  "set_lt s h lh = set_less s h lh"

definition get_gt :: "abs_plus_root \<Rightarrow> handle \<Rightarrow> bool \<Rightarrow> handle \<times> abs_plus_root" where
  "get_gt s h access = get_greater s h access"

definition set_gt :: "abs_plus_root \<Rightarrow> handle \<Rightarrow> handle \<Rightarrow> abs_plus_root" where
  "set_gt s h gh = set_greater s h gh"

definition get_bf :: "abs_plus_root \<Rightarrow> handle \<Rightarrow> int \<times> abs_plus_root" where
  "get_bf s h = get_balance_factor s h"

definition set_bf :: "abs_plus_root \<Rightarrow> handle \<Rightarrow> int \<Rightarrow> abs_plus_root" where
  "set_bf s h b = set_balance_factor s h b"

definition cmp_k_n :: "abs_plus_root \<Rightarrow> int \<Rightarrow> handle \<Rightarrow> cint" where
  "cmp_k_n s k h = compare_key_node s k h"

definition cmp_n_n :: "abs_plus_root \<Rightarrow> handle \<Rightarrow> handle \<Rightarrow> cint" where
  "cmp_n_n s h1 h2 = compare_node_node s h1 h2"

text \<open>The enumeration \<^verbatim>\<open>search_type\<close> (lines 42-54), used as a bit mask.\<close>

type_synonym search_type = "32 word"

definition EQUAL :: search_type where "EQUAL = 1"
definition LESS :: search_type where "LESS = 2"
definition GREATER :: search_type where "GREATER = 4"
definition LESS_EQUAL :: search_type where "LESS_EQUAL = EQUAL OR LESS"
definition GREATER_EQUAL :: search_type where "GREATER_EQUAL = EQUAL OR GREATER"

definition MASK_HIGH_BIT :: cint where
  "MASK_HIGH_BIT = NOT (drop_bit 1 (NOT 0))"

section \<open>Search\<close>

text \<open>
  A loop whose termination depends on the shape of the stored links is a partial
  function: the value \<open>None\<close> stands for a run that has no defined result (the loop
  does not terminate, or an index leaves a fixed-size buffer). A read error is reported
  in band, as in the source: the operation returns the null handle and the flag
  \<open>rd_err\<close> stays set.
\<close>

definition target_cmp_of :: "search_type \<Rightarrow> cint" where
  "target_cmp_of st =
     (if st AND LESS \<noteq> 0 then 1 else if st AND GREATER \<noteq> 0 then - 1 else 0)"

partial_function (option) search_loop ::
  "int \<Rightarrow> search_type \<Rightarrow> cint \<Rightarrow> handle \<Rightarrow> handle \<Rightarrow> abs_plus_root
     \<Rightarrow> (handle \<times> abs_plus_root) option" where
  "search_loop k st target_cmp match_h h s =
     (if h = null then Some (match_h, s)
      else
        let cmp = cmp_k_n s k h in
        if cmp = 0 \<and> st AND EQUAL \<noteq> 0 then Some (h, s)
        else
          let (cmp, match_h) =
                (if cmp = 0 then (- target_cmp, match_h)
                 else if target_cmp \<noteq> 0 \<and> (cmp XOR target_cmp) AND MASK_HIGH_BIT = 0
                 then (cmp, h)
                 else (cmp, match_h));
              (h, s) = (if cmp <s 0 then get_lt s h True else get_gt s h True)
          in if read_error s then Some (null, s)
             else search_loop k st target_cmp match_h h s)"

definition search :: "int \<Rightarrow> search_type \<Rightarrow> abs_plus_root \<Rightarrow> (handle \<times> abs_plus_root) option" where
  "search k st s = search_loop k st (target_cmp_of st) null (root s) s"

partial_function (option) search_least_loop ::
  "handle \<Rightarrow> handle \<Rightarrow> abs_plus_root \<Rightarrow> (handle \<times> abs_plus_root) option" where
  "search_least_loop h parent s =
     (if h = null then Some (parent, s)
      else
        let parent = h;
            (h, s) = get_lt s h True
        in if read_error s then Some (null, s)
           else search_least_loop h parent s)"

definition search_least :: "abs_plus_root \<Rightarrow> (handle \<times> abs_plus_root) option" where
  "search_least s = search_least_loop (root s) null s"

partial_function (option) search_greatest_loop ::
  "handle \<Rightarrow> handle \<Rightarrow> abs_plus_root \<Rightarrow> (handle \<times> abs_plus_root) option" where
  "search_greatest_loop h parent s =
     (if h = null then Some (parent, s)
      else
        let parent = h;
            (h, s) = get_gt s h True
        in if read_error s then Some (null, s)
           else search_greatest_loop h parent s)"

definition search_greatest :: "abs_plus_root \<Rightarrow> (handle \<times> abs_plus_root) option" where
  "search_greatest s = search_greatest_loop (root s) null s"

definition purge :: "abs_plus_root \<Rightarrow> abs_plus_root" where
  "purge s = s\<lparr>root := null\<rparr>"

definition is_empty :: "abs_plus_root \<Rightarrow> bool" where
  "is_empty s = (root s = null)"

section \<open>Rebalancing\<close>

text \<open>
  \<^verbatim>\<open>balance\<close> (lines 542-666): the four rotations. The argument node has balance factor
  \<open>+2\<close> or \<open>-2\<close>; the result is the root of the rotated subtree.
\<close>

definition balance :: "handle \<Rightarrow> abs_plus_root \<Rightarrow> handle \<times> abs_plus_root" where
  "balance bal_h s =
     (let (b, s) = get_bf s bal_h in
      if 0 < b then
        let (deep_h, s) = get_gt s bal_h True in
        if read_error s then (null, s)
        else
          let (bd, s) = get_bf s deep_h in
          if bd < 0 then
            let old_h = bal_h;
                (bal_h, s) = get_lt s deep_h True
            in if read_error s then (null, s)
               else
                 let (x, s) = get_lt s bal_h False;
                     s = set_gt s old_h x;
                     (y, s) = get_gt s bal_h False;
                     s = set_lt s deep_h y;
                     s = set_lt s bal_h old_h;
                     s = set_gt s bal_h deep_h;
                     (bf, s) = get_bf s bal_h;
                     s = (if bf \<noteq> 0 then
                            let s = (if 0 < bf
                                     then let s = set_bf s old_h (- 1) in set_bf s deep_h 0
                                     else let s = set_bf s deep_h 1 in set_bf s old_h 0)
                            in set_bf s bal_h 0
                          else let s = set_bf s old_h 0 in set_bf s deep_h 0)
                 in (bal_h, s)
          else
            let (x, s) = get_lt s deep_h False;
                s = set_gt s bal_h x;
                s = set_lt s deep_h bal_h;
                (bd, s) = get_bf s deep_h;
                s = (if bd = 0
                     then let s = set_bf s deep_h (- 1) in set_bf s bal_h 1
                     else let s = set_bf s deep_h 0 in set_bf s bal_h 0)
            in (deep_h, s)
      else
        let (deep_h, s) = get_lt s bal_h True in
        if read_error s then (null, s)
        else
          let (bd, s) = get_bf s deep_h in
          if 0 < bd then
            let old_h = bal_h;
                (bal_h, s) = get_gt s deep_h True
            in if read_error s then (null, s)
               else
                 let (x, s) = get_gt s bal_h False;
                     s = set_lt s old_h x;
                     (y, s) = get_lt s bal_h False;
                     s = set_gt s deep_h y;
                     s = set_gt s bal_h old_h;
                     s = set_lt s bal_h deep_h;
                     (bf, s) = get_bf s bal_h;
                     s = (if bf \<noteq> 0 then
                            let s = (if bf < 0
                                     then let s = set_bf s old_h 1 in set_bf s deep_h 0
                                     else let s = set_bf s deep_h (- 1) in set_bf s old_h 0)
                            in set_bf s bal_h 0
                          else let s = set_bf s old_h 0 in set_bf s deep_h 0)
                 in (bal_h, s)
          else
            let (x, s) = get_gt s deep_h False;
                s = set_lt s bal_h x;
                s = set_gt s deep_h bal_h;
                (bd, s) = get_bf s deep_h;
                s = (if bd = 0
                     then let s = set_bf s deep_h 1 in set_bf s bal_h (- 1)
                     else let s = set_bf s deep_h 0 in set_bf s bal_h 0)
            in (deep_h, s))"

section \<open>Insertion\<close>

text \<open>
  \<^verbatim>\<open>insert\<close> (lines 671-790), here \<open>insert_node\<close>. The local bit set \<^verbatim>\<open>branch\<close> has \<^verbatim>\<open>max_depth\<close> bits; it is
  a function on indices, and an access at an index that is not below \<open>max_depth\<close> has
  no defined result (\<open>None\<close>). The function is split at its loops; each loop hands over
  to the code that follows it:
  \<^item> \<open>insert_descend\<close>: the \<^verbatim>\<open>do ... while (hh != null())\<close> loop of lines 702-720;
  \<^item> \<open>insert_attach\<close>: lines 722-751;
  \<^item> \<open>insert_walk\<close>: the \<^verbatim>\<open>while (h != hh)\<close> loop of lines 752-767;
  \<^item> \<open>insert_rebalance\<close>: lines 769-789.
\<close>

definition branch_cmp :: "(nat \<Rightarrow> bool) \<Rightarrow> nat \<Rightarrow> cint" where
  "branch_cmp branch depth = (if branch depth then 1 else - 1)"

definition insert_rebalance ::
  "handle \<Rightarrow> (nat \<Rightarrow> bool) \<Rightarrow> handle \<Rightarrow> handle \<Rightarrow> nat \<Rightarrow> abs_plus_root
     \<Rightarrow> (handle \<times> abs_plus_root) option" where
  "insert_rebalance h branch unbal parent_unbal unbal_depth s =
     (if unbal \<noteq> null then
        let (unbal, s) = balance unbal s in
        if read_error s then Some (null, s)
        else if parent_unbal = null then Some (h, s\<lparr>root := unbal\<rparr>)
        else if unbal_depth = 0 \<or> \<not> unbal_depth - 1 < max_depth s then None
        else
          let depth = unbal_depth - 1;
              cmp = branch_cmp branch depth
          in if cmp <s 0 then Some (h, set_lt s parent_unbal unbal)
             else Some (h, set_gt s parent_unbal unbal)
      else Some (h, s))"

partial_function (option) insert_walk ::
  "handle \<Rightarrow> (nat \<Rightarrow> bool) \<Rightarrow> handle \<Rightarrow> handle \<Rightarrow> nat \<Rightarrow> handle \<Rightarrow> nat
     \<Rightarrow> abs_plus_root \<Rightarrow> (handle \<times> abs_plus_root) option" where
  "insert_walk h branch unbal parent_unbal unbal_depth hh depth s =
     (if h \<noteq> hh then
        if \<not> depth < max_depth s then None
        else
          let cmp = branch_cmp branch depth;
              depth = depth + 1;
              (hh, s) = (if cmp <s 0
                         then let s = set_bf s hh (- 1) in get_lt s hh True
                         else let s = set_bf s hh 1 in get_gt s hh True)
          in if read_error s then Some (null, s)
             else insert_walk h branch unbal parent_unbal unbal_depth hh depth s
      else insert_rebalance h branch unbal parent_unbal unbal_depth s)"

definition insert_attach ::
  "handle \<Rightarrow> (nat \<Rightarrow> bool) \<Rightarrow> handle \<Rightarrow> handle \<Rightarrow> nat \<Rightarrow> handle \<Rightarrow> cint
     \<Rightarrow> abs_plus_root \<Rightarrow> (handle \<times> abs_plus_root) option" where
  "insert_attach h branch unbal parent_unbal unbal_depth parent cmp s =
     (let s = (if cmp <s 0 then set_lt s parent h else set_gt s parent h);
          depth = unbal_depth
      in if unbal = null then
           let hh = root s
           in if hh \<noteq> null
              then insert_walk h branch unbal parent_unbal unbal_depth hh depth s
              else insert_rebalance h branch unbal parent_unbal unbal_depth s
         else if \<not> depth < max_depth s then None
         else
           let cmp = branch_cmp branch depth;
               depth = depth + 1;
               (unbal_bf, s) = get_bf s unbal;
               unbal_bf = (if cmp <s 0 then unbal_bf - 1 else unbal_bf + 1);
               (hh, s) = (if cmp <s 0 then get_lt s unbal True else get_gt s unbal True)
           in if read_error s then Some (null, s)
              else
                let (s, unbal) = (if unbal_bf \<noteq> - 2 \<and> unbal_bf \<noteq> 2
                                  then (set_bf s unbal unbal_bf, null)
                                  else (s, unbal))
                in if hh \<noteq> null
                   then insert_walk h branch unbal parent_unbal unbal_depth hh depth s
                   else insert_rebalance h branch unbal parent_unbal unbal_depth s)"

partial_function (option) insert_descend ::
  "handle \<Rightarrow> (nat \<Rightarrow> bool) \<Rightarrow> handle \<Rightarrow> handle \<Rightarrow> nat \<Rightarrow> handle \<Rightarrow> handle \<Rightarrow> nat
     \<Rightarrow> abs_plus_root \<Rightarrow> (handle \<times> abs_plus_root) option" where
  "insert_descend h branch unbal parent_unbal unbal_depth hh parent depth s =
     (let (b, s) = get_bf s hh;
          (unbal, parent_unbal, unbal_depth) =
             (if b \<noteq> 0 then (hh, parent, depth) else (unbal, parent_unbal, unbal_depth));
          cmp = cmp_n_n s h hh
      in if cmp = 0 then Some (hh, s)
         else
           let parent = hh;
               (hh, s) = (if cmp <s 0 then get_lt s hh True else get_gt s hh True)
           in if read_error s then Some (null, s)
              else if \<not> depth < max_depth s then None
              else
                let branch = branch(depth := 0 <s cmp);
                    depth = depth + 1
                in if hh \<noteq> null
                   then insert_descend h branch unbal parent_unbal unbal_depth hh parent depth s
                   else insert_attach h branch unbal parent_unbal unbal_depth parent cmp s)"

definition insert_node :: "handle \<Rightarrow> abs_plus_root \<Rightarrow> (handle \<times> abs_plus_root) option" where
  "insert_node h s =
     (let s = set_lt s h null;
          s = set_gt s h null;
          s = set_bf s h 0
      in if root s = null then Some (h, s\<lparr>root := h\<rparr>)
         else insert_descend h (\<lambda>_. False) null null 0 (root s) null 0 s)"

section \<open>Removal\<close>

text \<open>
  \<^verbatim>\<open>remove\<close> (lines 879-1075), here \<open>remove_key\<close>, split at its loops, each part handing over to the
  code that follows it:
  \<^item> \<open>remove_find\<close>: the search loop of lines 894-909;
  \<^item> \<open>remove_choose\<close>: lines 910-939, the choice of the side of the replacement;
  \<^item> \<open>remove_descend\<close>: the \<^verbatim>\<open>do ... while (child != null())\<close> loop of lines 940-958
    with lines 960-968;
  \<^item> \<open>remove_poke\<close> and \<open>remove_splice\<close>: lines 971-1003;
  \<^item> \<open>remove_rethread\<close>: the loop of lines 1010-1026 that reverses the links of the
    path;
  \<^item> \<open>remove_adjust\<close> and \<open>remove_climb\<close>: the loop of lines 1033-1070 and line 1071.
  The variable \<^verbatim>\<open>cmp_shortened_sub_with_path\<close> is written \<open>css\<close>.
\<close>

definition remove_adjust ::
  "handle \<Rightarrow> cint \<Rightarrow> abs_plus_root
     \<Rightarrow> (handle \<times> abs_plus_root) + (handle \<times> bool \<times> abs_plus_root)" where
  "remove_adjust h cmp s =
     (let (bf, s) = get_bf s h;
          bf = (if cmp <s 0 then bf + 1 else bf - 1)
      in if bf = - 2 \<or> bf = 2 then
           let (h, s) = balance h s in
           if read_error s then Inl (null, s)
           else let (bf, s) = get_bf s h in Inr (h, bf = 0, s)
         else
           let s = set_bf s h bf in Inr (h, bf = 0, s))"

partial_function (option) remove_climb ::
  "handle \<Rightarrow> (nat \<Rightarrow> bool) \<Rightarrow> handle \<Rightarrow> handle \<Rightarrow> nat \<Rightarrow> cint \<Rightarrow> bool
     \<Rightarrow> abs_plus_root \<Rightarrow> (handle \<times> abs_plus_root) option" where
  "remove_climb rm branch h parent depth cmp reduced_depth s =
     (case (if reduced_depth then remove_adjust h cmp s else Inr (h, reduced_depth, s)) of
        Inl r \<Rightarrow> Some r
      | Inr (h, reduced_depth, s) \<Rightarrow>
          if parent = null then Some (rm, s\<lparr>root := h\<rparr>)
          else
            let child = h;
                h = parent
            in if depth = 0 \<or> \<not> depth - 1 < max_depth s then None
               else
                 let depth = depth - 1;
                     cmp = branch_cmp branch depth;
                     (parent, s) =
                        (if cmp <s 0
                         then let (p, s) = get_lt s h True in (p, set_lt s h child)
                         else let (p, s) = get_gt s h True in (p, set_gt s h child))
                 in if read_error s then Some (null, s)
                    else remove_climb rm branch h parent depth cmp reduced_depth s)"

partial_function (option) remove_rethread ::
  "handle \<Rightarrow> (nat \<Rightarrow> bool) \<Rightarrow> handle \<Rightarrow> cint \<Rightarrow> handle \<Rightarrow> handle \<Rightarrow> nat
     \<Rightarrow> abs_plus_root \<Rightarrow> (handle \<times> abs_plus_root) option" where
  "remove_rethread rm branch path css h parent depth s =
     (if h \<noteq> path then
        if \<not> depth < max_depth s then None
        else
          let b = branch depth;
              depth = depth + 1;
              (child, s) =
                 (if b
                  then let (c, s) = get_gt s h True in (c, set_gt s h parent)
                  else let (c, s) = get_lt s h True in (c, set_lt s h parent))
          in if read_error s then Some (null, s)
             else
               let parent = h;
                   h = child
               in remove_rethread rm branch path css h parent depth s
      else remove_climb rm branch h parent depth css True s)"

definition remove_poke ::
  "handle \<Rightarrow> handle \<Rightarrow> nat \<Rightarrow> (nat \<Rightarrow> bool) \<Rightarrow> handle \<Rightarrow> abs_plus_root
     \<Rightarrow> abs_plus_root option" where
  "remove_poke rm parent_rm rm_depth branch h s =
     (let (x, s) = get_lt s rm False;
          s = set_lt s h x;
          (y, s) = get_gt s rm False;
          s = set_gt s h y;
          (b, s) = get_bf s rm;
          s = set_bf s h b
      in if parent_rm = null then Some (s\<lparr>root := h\<rparr>)
         else if rm_depth = 0 \<or> \<not> rm_depth - 1 < max_depth s then None
         else
           let depth = rm_depth - 1
           in if branch depth then Some (set_gt s parent_rm h)
              else Some (set_lt s parent_rm h))"

definition remove_splice ::
  "handle \<Rightarrow> handle \<Rightarrow> nat \<Rightarrow> (nat \<Rightarrow> bool) \<Rightarrow> handle \<Rightarrow> handle \<Rightarrow> handle \<Rightarrow> cint
     \<Rightarrow> abs_plus_root \<Rightarrow> (handle \<times> abs_plus_root) option" where
  "remove_splice rm parent_rm rm_depth branch h parent child css s =
     (let s = (if parent = null then s\<lparr>root := child\<rparr>
               else if css <s 0 then set_lt s parent child
               else set_gt s parent child);
          path = (if parent = rm then h else parent)
      in case (if h \<noteq> rm then remove_poke rm parent_rm rm_depth branch h s else Some s) of
           None \<Rightarrow> None
         | Some s \<Rightarrow>
             if path \<noteq> null then remove_rethread rm branch path css (root s) null 0 s
             else Some (rm, s))"

partial_function (option) remove_descend ::
  "handle \<Rightarrow> handle \<Rightarrow> nat \<Rightarrow> (nat \<Rightarrow> bool) \<Rightarrow> cint \<Rightarrow> handle \<Rightarrow> handle \<Rightarrow> nat
     \<Rightarrow> abs_plus_root \<Rightarrow> (handle \<times> abs_plus_root) option" where
  "remove_descend rm parent_rm rm_depth branch cmp h child depth s =
     (let parent = h;
          h = child;
          (child, s) = (if cmp <s 0 then get_lt s h True else get_gt s h True)
      in if \<not> depth < max_depth s then None
         else
           let branch = branch(depth := \<not> cmp <s 0)
           in if read_error s then Some (null, s)
              else
                let depth = depth + 1
                in if child \<noteq> null
                   then remove_descend rm parent_rm rm_depth branch cmp h child depth s
                   else
                     let css = (if parent = rm then - cmp else cmp);
                         (child, s) = (if 0 <s cmp then get_lt s h False
                                       else get_gt s h False)
                     in remove_splice rm parent_rm rm_depth branch h parent child css s)"

definition remove_choose ::
  "handle \<Rightarrow> handle \<Rightarrow> nat \<Rightarrow> (nat \<Rightarrow> bool) \<Rightarrow> cint \<Rightarrow> abs_plus_root
     \<Rightarrow> (handle \<times> abs_plus_root) option" where
  "remove_choose rm parent_rm rm_depth branch css s =
     (let h = rm;
          parent = parent_rm;
          depth = rm_depth;
          (b, s) = get_bf s h;
          (child, s) = (if b < 0 then get_lt s h True else get_gt s h True)
      in if \<not> depth < max_depth s then None
         else
           let branch = branch(depth := \<not> b < 0);
               cmp = (if b < 0 then - 1 else 1)
           in if read_error s then Some (null, s)
              else
                let depth = depth + 1
                in if child \<noteq> null
                   then remove_descend rm parent_rm rm_depth branch (- cmp) h child depth s
                   else remove_splice rm parent_rm rm_depth branch h parent child css s)"

partial_function (option) remove_find ::
  "int \<Rightarrow> (nat \<Rightarrow> bool) \<Rightarrow> cint \<Rightarrow> handle \<Rightarrow> handle \<Rightarrow> nat \<Rightarrow> abs_plus_root
     \<Rightarrow> (handle \<times> abs_plus_root) option" where
  "remove_find k branch css h parent depth s =
     (if h = null then Some (null, s)
      else
        let cmp = cmp_k_n s k h in
        if cmp = 0 then remove_choose h parent depth branch css s
        else
          let parent = h;
              (h, s) = (if cmp <s 0 then get_lt s h True else get_gt s h True)
          in if read_error s then Some (null, s)
             else if \<not> depth < max_depth s then None
             else
               let branch = branch(depth := 0 <s cmp);
                   depth = depth + 1;
                   css = cmp
               in remove_find k branch css h parent depth s)"

definition remove_key :: "int \<Rightarrow> abs_plus_root \<Rightarrow> (handle \<times> abs_plus_root) option" where
  "remove_key k s = remove_find k (\<lambda>_. False) 0 (root s) null 0 s"

section \<open>Substitution\<close>

text \<open>\<^verbatim>\<open>subst\<close> (lines 1079-1120): the search loop, then the code after it.\<close>

definition subst_replace ::
  "handle \<Rightarrow> handle \<Rightarrow> handle \<Rightarrow> cint \<Rightarrow> abs_plus_root
     \<Rightarrow> (handle \<times> abs_plus_root) option" where
  "subst_replace new_node h parent last_cmp s =
     (let (x, s) = get_lt s h False;
          s = set_lt s new_node x;
          (y, s) = get_gt s h False;
          s = set_gt s new_node y;
          (b, s) = get_bf s h;
          s = set_bf s new_node b
      in if parent = null then Some (h, s\<lparr>root := new_node\<rparr>)
         else if last_cmp <s 0 then Some (h, set_lt s parent new_node)
         else Some (h, set_gt s parent new_node))"

partial_function (option) subst_find ::
  "handle \<Rightarrow> handle \<Rightarrow> handle \<Rightarrow> cint \<Rightarrow> abs_plus_root
     \<Rightarrow> (handle \<times> abs_plus_root) option" where
  "subst_find new_node h parent last_cmp s =
     (if h = null then Some (null, s)
      else
        let cmp = cmp_n_n s new_node h in
        if cmp = 0 then subst_replace new_node h parent last_cmp s
        else
          let last_cmp = cmp;
              parent = h;
              (h, s) = (if cmp <s 0 then get_lt s h True else get_gt s h True)
          in if read_error s then Some (null, s)
             else subst_find new_node h parent last_cmp s)"

definition subst :: "handle \<Rightarrow> abs_plus_root \<Rightarrow> (handle \<times> abs_plus_root) option" where
  "subst new_node s = subst_find new_node (root s) null 0 s"

section \<open>The iterator\<close>

text \<open>
  The class \<^verbatim>\<open>iter\<close> (lines 117-355). The member \<^verbatim>\<open>depth\<close> is an \<^verbatim>\<open>unsigned\<close> whose
  value \<^verbatim>\<open>~0\<close> marks an invalid iterator, and \<^verbatim>\<open>depth++\<close> on that value wraps to \<open>0\<close>, so
  it is a 32-bit word. The array \<^verbatim>\<open>path_h\<close> has \<^verbatim>\<open>max_depth - 1\<close> entries and \<^verbatim>\<open>branch\<close> has
  \<^verbatim>\<open>max_depth\<close> bits; an access outside has no defined result. The tree the iterator
  refers to is passed along as the state.
\<close>

record iter =
  it_branch :: "nat \<Rightarrow> bool"
  it_depth :: "32 word"
  it_path_h :: "nat \<Rightarrow> handle"

definition invalid_depth :: "32 word" where
  "invalid_depth = NOT 0"

partial_function (option) start_iter_least_loop ::
  "iter \<Rightarrow> handle \<Rightarrow> abs_plus_root \<Rightarrow> (iter \<times> abs_plus_root) option" where
  "start_iter_least_loop it h s =
     (if h \<noteq> null then
        if it_depth it \<noteq> invalid_depth \<and> \<not> unat (it_depth it) < max_depth s - 1 then None
        else
          let it = (if it_depth it \<noteq> invalid_depth
                    then it\<lparr>it_path_h := (it_path_h it)(unat (it_depth it) := h)\<rparr>
                    else it);
              it = it\<lparr>it_depth := it_depth it + 1\<rparr>;
              (h, s) = get_lt s h True
          in if read_error s then Some (it\<lparr>it_depth := invalid_depth\<rparr>, s)
             else start_iter_least_loop it h s
      else Some (it, s))"

definition start_iter_least :: "iter \<Rightarrow> abs_plus_root \<Rightarrow> (iter \<times> abs_plus_root) option" where
  "start_iter_least it s =
     start_iter_least_loop (it\<lparr>it_depth := invalid_depth, it_branch := (\<lambda>_. False)\<rparr>)
       (root s) s"

partial_function (option) start_iter_greatest_loop ::
  "iter \<Rightarrow> handle \<Rightarrow> abs_plus_root \<Rightarrow> (iter \<times> abs_plus_root) option" where
  "start_iter_greatest_loop it h s =
     (if h \<noteq> null then
        if it_depth it \<noteq> invalid_depth \<and> \<not> unat (it_depth it) < max_depth s - 1 then None
        else
          let it = (if it_depth it \<noteq> invalid_depth
                    then it\<lparr>it_path_h := (it_path_h it)(unat (it_depth it) := h)\<rparr>
                    else it);
              it = it\<lparr>it_depth := it_depth it + 1\<rparr>;
              (h, s) = get_gt s h True
          in if read_error s then Some (it\<lparr>it_depth := invalid_depth\<rparr>, s)
             else start_iter_greatest_loop it h s
      else Some (it, s))"

definition start_iter_greatest :: "iter \<Rightarrow> abs_plus_root \<Rightarrow> (iter \<times> abs_plus_root) option" where
  "start_iter_greatest it s =
     start_iter_greatest_loop (it\<lparr>it_depth := invalid_depth, it_branch := (\<lambda>_. True)\<rparr>)
       (root s) s"

text \<open>\<^verbatim>\<open>operator *\<close> (lines 236-242).\<close>

definition deref :: "iter \<Rightarrow> abs_plus_root \<Rightarrow> handle option" where
  "deref it s =
     (if it_depth it = invalid_depth then Some null
      else if it_depth it = 0 then Some (root s)
      else if \<not> unat (it_depth it - 1) < max_depth s - 1 then None
      else Some (it_path_h it (unat (it_depth it - 1))))"

text \<open>
  \<^verbatim>\<open>operator ++\<close> (lines 244-281): \<open>incr_pop\<close> is the \<^verbatim>\<open>do ... while (branch[depth])\<close>
  loop, \<open>incr_dive\<close> the \<^verbatim>\<open>for ( ; ; )\<close> loop.
\<close>

partial_function (option) incr_pop :: "iter \<Rightarrow> abs_plus_root \<Rightarrow> iter option" where
  "incr_pop it s =
     (if it_depth it = 0 then Some (it\<lparr>it_depth := invalid_depth\<rparr>)
      else
        let it = it\<lparr>it_depth := it_depth it - 1\<rparr>
        in if \<not> unat (it_depth it) < max_depth s then None
           else if it_branch it (unat (it_depth it)) then incr_pop it s
           else Some it)"

partial_function (option) incr_dive ::
  "iter \<Rightarrow> handle \<Rightarrow> abs_plus_root \<Rightarrow> (iter \<times> abs_plus_root) option" where
  "incr_dive it h s =
     (let (h, s) = get_lt s h True
      in if read_error s then Some (it\<lparr>it_depth := invalid_depth\<rparr>, s)
         else if h = null then Some (it, s)
         else if \<not> unat (it_depth it) < max_depth s
                 \<or> \<not> unat (it_depth it) < max_depth s - 1 then None
         else
           let it = it\<lparr>it_branch := (it_branch it)(unat (it_depth it) := False)\<rparr>;
               it = it\<lparr>it_path_h := (it_path_h it)(unat (it_depth it) := h)\<rparr>;
               it = it\<lparr>it_depth := it_depth it + 1\<rparr>
           in incr_dive it h s)"

definition incr :: "iter \<Rightarrow> abs_plus_root \<Rightarrow> (iter \<times> abs_plus_root) option" where
  "incr it s =
     (if it_depth it \<noteq> invalid_depth then
        case deref it s of
          None \<Rightarrow> None
        | Some cur \<Rightarrow>
            let (h, s) = get_gt s cur True
            in if read_error s then Some (it\<lparr>it_depth := invalid_depth\<rparr>, s)
               else if h = null then
                 (case incr_pop it s of None \<Rightarrow> None | Some it \<Rightarrow> Some (it, s))
               else if \<not> unat (it_depth it) < max_depth s
                       \<or> \<not> unat (it_depth it) < max_depth s - 1 then None
               else
                 let it = it\<lparr>it_branch := (it_branch it)(unat (it_depth it) := True)\<rparr>;
                     it = it\<lparr>it_path_h := (it_path_h it)(unat (it_depth it) := h)\<rparr>;
                     it = it\<lparr>it_depth := it_depth it + 1\<rparr>
                 in incr_dive it h s
      else Some (it, s))"

text \<open>\<^verbatim>\<open>operator --\<close> (lines 283-320), the mirror image.\<close>

partial_function (option) decr_pop :: "iter \<Rightarrow> abs_plus_root \<Rightarrow> iter option" where
  "decr_pop it s =
     (if it_depth it = 0 then Some (it\<lparr>it_depth := invalid_depth\<rparr>)
      else
        let it = it\<lparr>it_depth := it_depth it - 1\<rparr>
        in if \<not> unat (it_depth it) < max_depth s then None
           else if \<not> it_branch it (unat (it_depth it)) then decr_pop it s
           else Some it)"

partial_function (option) decr_dive ::
  "iter \<Rightarrow> handle \<Rightarrow> abs_plus_root \<Rightarrow> (iter \<times> abs_plus_root) option" where
  "decr_dive it h s =
     (let (h, s) = get_gt s h True
      in if read_error s then Some (it\<lparr>it_depth := invalid_depth\<rparr>, s)
         else if h = null then Some (it, s)
         else if \<not> unat (it_depth it) < max_depth s
                 \<or> \<not> unat (it_depth it) < max_depth s - 1 then None
         else
           let it = it\<lparr>it_branch := (it_branch it)(unat (it_depth it) := True)\<rparr>;
               it = it\<lparr>it_path_h := (it_path_h it)(unat (it_depth it) := h)\<rparr>;
               it = it\<lparr>it_depth := it_depth it + 1\<rparr>
           in decr_dive it h s)"

definition decr :: "iter \<Rightarrow> abs_plus_root \<Rightarrow> (iter \<times> abs_plus_root) option" where
  "decr it s =
     (if it_depth it \<noteq> invalid_depth then
        case deref it s of
          None \<Rightarrow> None
        | Some cur \<Rightarrow>
            let (h, s) = get_lt s cur True
            in if read_error s then Some (it\<lparr>it_depth := invalid_depth\<rparr>, s)
               else if h = null then
                 (case decr_pop it s of None \<Rightarrow> None | Some it \<Rightarrow> Some (it, s))
               else if \<not> unat (it_depth it) < max_depth s
                       \<or> \<not> unat (it_depth it) < max_depth s - 1 then None
               else
                 let it = it\<lparr>it_branch := (it_branch it)(unat (it_depth it) := False)\<rparr>;
                     it = it\<lparr>it_path_h := (it_path_h it)(unat (it_depth it) := h)\<rparr>;
                     it = it\<lparr>it_depth := it_depth it + 1\<rparr>
                 in decr_dive it h s
      else Some (it, s))"

text \<open>
  A run of the iterator: dereference, advance, and so on, \<open>n\<close> times, collecting the
  handles seen.
\<close>

fun iterate :: "nat \<Rightarrow> iter \<Rightarrow> abs_plus_root \<Rightarrow> (handle list \<times> iter \<times> abs_plus_root) option" where
  "iterate 0 it s = Some ([], it, s)"
| "iterate (Suc n) it s =
     (case deref it s of
        None \<Rightarrow> None
      | Some h \<Rightarrow>
          (case incr it s of
             None \<Rightarrow> None
           | Some (it, s) \<Rightarrow>
               (case iterate n it s of
                  None \<Rightarrow> None
                | Some (hs, it, s) \<Rightarrow> Some (h # hs, it, s))))"

section \<open>The bulk builder\<close>

text \<open>
  \<^verbatim>\<open>build\<close> (lines 357-504). The forward iterator \<^verbatim>\<open>p\<close> is the list of the reads that
  remain: an entry \<open>Some h\<close> delivers the handle \<open>h\<close>, an entry \<open>None\<close> is a read that
  fails and latches the read-error flag, and a read beyond the end of the sequence has
  no defined result. The type \<^verbatim>\<open>size\<close> of the abstractor is modelled by the natural
  numbers. The function is split at its loops:
  \<^item> \<open>build_split\<close>: the loop \<^verbatim>\<open>while (num_sub > 2)\<close> of lines 406-413;
  \<^item> \<open>build_leaf\<close>: lines 415-448;
  \<^item> \<open>build_unwind\<close>: the loop \<^verbatim>\<open>while (depth)\<close> of lines 450-475;
  \<^item> \<open>build_loop\<close>: the enclosing \<^verbatim>\<open>for ( ; ; )\<close> with lines 477-497.
\<close>

definition deref_seq ::
  "handle option list \<Rightarrow> abs_plus_root \<Rightarrow> (handle \<times> abs_plus_root) option" where
  "deref_seq p s =
     (case p of
        [] \<Rightarrow> None
      | None # _ \<Rightarrow> Some (null, s\<lparr>rd_err := True\<rparr>)
      | Some h # _ \<Rightarrow> Some (h, s))"

partial_function (option) build_split ::
  "nat \<Rightarrow> (nat \<Rightarrow> bool) \<Rightarrow> (nat \<Rightarrow> bool) \<Rightarrow> nat \<Rightarrow> nat
     \<Rightarrow> ((nat \<Rightarrow> bool) \<times> (nat \<Rightarrow> bool) \<times> nat \<times> nat) option" where
  "build_split md branch rem depth num_sub =
     (if 2 < num_sub then
        let num_sub = num_sub - 1
        in if \<not> depth < md then None
           else
             let rem = rem(depth := (num_sub AND 1 \<noteq> 0));
                 branch = branch(depth := False);
                 depth = depth + 1;
                 num_sub = drop_bit 1 num_sub
             in build_split md branch rem depth num_sub
      else Some (branch, rem, depth, num_sub))"

definition build_leaf ::
  "handle option list \<Rightarrow> nat \<Rightarrow> abs_plus_root
     \<Rightarrow> ((bool \<times> abs_plus_root) + (handle \<times> handle option list \<times> abs_plus_root)) option" where
  "build_leaf p num_sub s =
     (if num_sub = 2 then
        (case deref_seq p s of
           None \<Rightarrow> None
         | Some (h, s) \<Rightarrow>
             if read_error s then Some (Inl (False, s))
             else
               let p = tl p
               in (case deref_seq p s of
                     None \<Rightarrow> None
                   | Some (child, s) \<Rightarrow>
                       if read_error s then Some (Inl (False, s))
                       else
                         let p = tl p;
                             s = set_lt s child null;
                             s = set_gt s child null;
                             s = set_bf s child 0;
                             s = set_gt s h child;
                             s = set_lt s h null;
                             s = set_bf s h 1
                         in Some (Inr (h, p, s))))
      else
        (case deref_seq p s of
           None \<Rightarrow> None
         | Some (h, s) \<Rightarrow>
             if read_error s then Some (Inl (False, s))
             else
               let p = tl p;
                   s = set_lt s h null;
                   s = set_gt s h null;
                   s = set_bf s h 0
               in Some (Inr (h, p, s))))"

partial_function (option) build_unwind ::
  "(nat \<Rightarrow> bool) \<Rightarrow> (nat \<Rightarrow> bool) \<Rightarrow> nat \<Rightarrow> nat \<Rightarrow> handle \<Rightarrow> handle \<Rightarrow> abs_plus_root
     \<Rightarrow> ((bool \<times> abs_plus_root) + (nat \<times> nat \<times> handle \<times> handle \<times> abs_plus_root)) option"
  where
  "build_unwind branch rem depth num_sub h less_parent s =
     (if depth \<noteq> 0 then
        let depth = depth - 1
        in if \<not> depth < max_depth s then None
           else if \<not> branch depth then Some (Inr (depth, num_sub, h, less_parent, s))
           else
             let child = h;
                 h = less_parent;
                 (less_parent, s) = get_gt s h True
             in if read_error s then Some (Inl (False, s))
                else
                  let s = set_gt s h child;
                      num_sub = push_bit 1 num_sub;
                      num_sub = num_sub + (1 - (if rem depth then 1 else 0));
                      s = (if num_sub AND (num_sub - 1) \<noteq> 0 then set_bf s h 0
                           else set_bf s h 1)
                  in build_unwind branch rem depth num_sub h less_parent s
      else Some (Inr (depth, num_sub, h, less_parent, s)))"

partial_function (option) build_loop ::
  "nat \<Rightarrow> (nat \<Rightarrow> bool) \<Rightarrow> (nat \<Rightarrow> bool) \<Rightarrow> nat \<Rightarrow> nat \<Rightarrow> handle \<Rightarrow> handle option list
     \<Rightarrow> abs_plus_root \<Rightarrow> (bool \<times> abs_plus_root) option" where
  "build_loop num_nodes branch rem depth num_sub less_parent p s =
     (case build_split (max_depth s) branch rem depth num_sub of
        None \<Rightarrow> None
      | Some (branch, rem, depth, num_sub) \<Rightarrow>
          (case build_leaf p num_sub s of
             None \<Rightarrow> None
           | Some (Inl r) \<Rightarrow> Some r
           | Some (Inr (h, p, s)) \<Rightarrow>
               (case build_unwind branch rem depth num_sub h less_parent s of
                  None \<Rightarrow> None
                | Some (Inl r) \<Rightarrow> Some r
                | Some (Inr (depth, num_sub, h, less_parent, s)) \<Rightarrow>
                    if num_sub = num_nodes then Some (True, s\<lparr>root := h\<rparr>)
                    else
                      let child = h
                      in (case deref_seq p s of
                            None \<Rightarrow> None
                          | Some (h, s) \<Rightarrow>
                              if read_error s then Some (False, s)
                              else
                                let p = tl p;
                                    s = set_lt s h child;
                                    s = set_gt s h less_parent;
                                    less_parent = h
                                in if \<not> depth < max_depth s then None
                                   else
                                     let branch = branch(depth := True);
                                         num_sub = num_sub + (if rem depth then 1 else 0);
                                         depth = depth + 1
                                     in build_loop num_nodes branch rem depth num_sub
                                          less_parent p s))))"

definition build :: "handle option list \<Rightarrow> nat \<Rightarrow> abs_plus_root \<Rightarrow> (bool \<times> abs_plus_root) option" where
  "build p num_nodes s =
     (if num_nodes = 0 then Some (True, s\<lparr>root := null\<rparr>)
      else build_loop num_nodes (\<lambda>_. False) (\<lambda>_. False) 0 num_nodes null p s)"

section \<open>Abstraction of the stored links\<close>

text \<open>
  \<open>is_tree s h t\<close>: the links reachable from handle \<open>h\<close> spell the tree \<open>t\<close> of node
  handles. \<open>ordered s t\<close> is the search-tree invariant (keys strictly ascending in
  order, hence unique), \<open>balanced s t\<close> the AVL invariant on stored balance factors,
  and \<open>no_faults s\<close> says that no read fails.
\<close>

fun is_tree :: "abs_plus_root \<Rightarrow> handle \<Rightarrow> handle tree \<Rightarrow> bool" where
  "is_tree s h Leaf = (h = null)"
| "is_tree s h (Node l x r) =
     (h = x \<and> x \<noteq> null \<and> is_tree s (lnk_lt s x) l \<and> is_tree s (lnk_gt s x) r)"

definition ordered :: "abs_plus_root \<Rightarrow> handle tree \<Rightarrow> bool" where
  "ordered s t = sorted_wrt (<) (map (keyv s) (inorder t))"

fun balanced :: "abs_plus_root \<Rightarrow> handle tree \<Rightarrow> bool" where
  "balanced s Leaf = True"
| "balanced s (Node l x r) =
     (bal s x = int (height r) - int (height l) \<and> bal s x \<in> {- 1, 0, 1}
      \<and> balanced s l \<and> balanced s r)"

definition no_faults :: "abs_plus_root \<Rightarrow> bool" where
  "no_faults s = (\<not> rd_err s \<and> (\<forall>h. \<not> faulty s h))"

fun last_or_null :: "handle list \<Rightarrow> handle" where
  "last_or_null [] = null"
| "last_or_null (x # xs) = (if xs = [] then x else last_or_null xs)"

fun first_or_null :: "handle list \<Rightarrow> handle" where
  "first_or_null [] = null"
| "first_or_null (x # xs) = x"

definition pick_last :: "handle \<Rightarrow> handle list \<Rightarrow> handle" where
  "pick_last m xs = (if xs = [] then m else last xs)"

definition pick_first :: "handle \<Rightarrow> handle list \<Rightarrow> handle" where
  "pick_first m xs = (if xs = [] then m else hd xs)"

section \<open>Concrete trees\<close>

text \<open>
  A store in which no node is linked, used to write down small trees: handle \<open>h\<close>
  carries the key \<open>10 * h\<close>.
\<close>

definition blank :: abs_plus_root where
  "blank = \<lparr>lnk_lt = (\<lambda>_. null), lnk_gt = (\<lambda>_. null), bal = (\<lambda>_. 0),
     keyv = (\<lambda>h. 10 * int h), faulty = (\<lambda>_. False), rd_err = False, max_depth = 32,
     root = null\<rparr>"

definition demo1 :: abs_plus_root where
  "demo1 = blank\<lparr>root := 1\<rparr>"

definition demo5 :: abs_plus_root where
  "demo5 = blank\<lparr>lnk_lt := (\<lambda>_. null)(2 := 1, 4 := 3),
     lnk_gt := (\<lambda>_. null)(2 := 4, 4 := 5), bal := (\<lambda>_. 0)(2 := 1), root := 2\<rparr>"

definition tree5 :: "handle tree" where
  "tree5 = Node (Node Leaf 1 Leaf) 2 (Node (Node Leaf 3 Leaf) 4 (Node Leaf 5 Leaf))"

definition frame :: "handle set \<Rightarrow> abs_plus_root \<Rightarrow> abs_plus_root \<Rightarrow> bool" where
  "frame A s s' =
     (keyv s' = keyv s \<and> max_depth s' = max_depth s \<and> no_faults s' = no_faults s
      \<and> (\<forall>a. a \<notin> A \<longrightarrow> lnk_lt s' a = lnk_lt s a \<and> lnk_gt s' a = lnk_gt s a
             \<and> bal s' a = bal s a))"

fun tins :: "(handle \<Rightarrow> int) \<Rightarrow> handle \<Rightarrow> handle tree \<Rightarrow> handle tree" where
  "tins kf h Leaf = Node Leaf h Leaf"
| "tins kf h (Node l x r) =
     (if kf h < kf x then Node (tins kf h l) x r else Node l x (tins kf h r))"

fun last_node :: "(handle \<Rightarrow> int) \<Rightarrow> int \<Rightarrow> handle tree \<Rightarrow> handle" where
  "last_node kf k Leaf = null"
| "last_node kf k (Node l x r) =
     (if k < kf x then (if l = Leaf then x else last_node kf k l)
      else (if r = Leaf then x else last_node kf k r))"

fun path_bits :: "(handle \<Rightarrow> int) \<Rightarrow> int \<Rightarrow> handle tree \<Rightarrow> (nat \<Rightarrow> bool) \<Rightarrow> nat \<Rightarrow> nat \<Rightarrow> bool" where
  "path_bits kf k Leaf branch depth = branch"
| "path_bits kf k (Node l x r) branch depth =
     path_bits kf k (if k < kf x then l else r) (branch(depth := kf x < k)) (depth + 1)"

fun bits_ok :: "(handle \<Rightarrow> int) \<Rightarrow> int \<Rightarrow> handle tree \<Rightarrow> (nat \<Rightarrow> bool) \<Rightarrow> nat \<Rightarrow> bool" where
  "bits_ok kf k Leaf branch depth = True"
| "bits_ok kf k (Node l x r) branch depth =
     (branch depth = (kf x < k) \<and> bits_ok kf k (if k < kf x then l else r) branch (depth + 1))"

fun zero_path :: "(handle \<Rightarrow> int) \<Rightarrow> (handle \<Rightarrow> int) \<Rightarrow> int \<Rightarrow> handle tree \<Rightarrow> bool" where
  "zero_path bf kf k Leaf = True"
| "zero_path bf kf k (Node l x r) =
     (bf x = 0 \<and> zero_path bf kf k (if k < kf x then l else r))"

fun mark_path :: "abs_plus_root \<Rightarrow> int \<Rightarrow> handle tree \<Rightarrow> abs_plus_root" where
  "mark_path s k Leaf = s"
| "mark_path s k (Node l x r) =
     (if k < keyv s x then mark_path (set_bf s x (- 1)) k l
      else mark_path (set_bf s x 1) k r)"

definition attach :: "abs_plus_root \<Rightarrow> handle \<Rightarrow> int \<Rightarrow> handle \<Rightarrow> abs_plus_root" where
  "attach s n k h = (if k < keyv s n then set_lt s n h else set_gt s n h)"

definition ins_ok ::
  "abs_plus_root \<Rightarrow> abs_plus_root \<Rightarrow> handle \<Rightarrow> handle tree \<Rightarrow> handle \<Rightarrow> bool \<Rightarrow> bool" where
  "ins_ok s s' h t p dir =
     (\<exists>t' r'. is_tree s' r' t' \<and> balanced s' t'
        \<and> inorder t' = inorder (tins (keyv s) h t) \<and> height t' = height t
        \<and> frame ({h, p} \<union> set_tree t) s s'
        \<and> (if p = null then root s' = r'
            else root s' = root s \<and> bal s' p = bal s p
              \<and> (if dir then lnk_gt s' p = r' \<and> lnk_lt s' p = lnk_lt s p
                  else lnk_lt s' p = r' \<and> lnk_gt s' p = lnk_gt s p)))"

definition demo5dup :: abs_plus_root where
  "demo5dup = demo5\<lparr>keyv := (keyv demo5)(6 := 20)\<rparr>"

definition demo5dirty :: abs_plus_root where
  "demo5dirty = demo5dup\<lparr>lnk_lt := (lnk_lt demo5dup)(6 := 3),
     lnk_gt := (lnk_gt demo5dup)(6 := 5), bal := (bal demo5dup)(6 := 1)\<rparr>"

definition demo5fresh :: abs_plus_root where
  "demo5fresh = demo5\<lparr>lnk_lt := (lnk_lt demo5)(6 := 3), lnk_gt := (lnk_gt demo5)(6 := 5),
     bal := (bal demo5)(6 := 1)\<rparr>"

fun rt :: "handle tree \<Rightarrow> handle" where
  "rt Leaf = null"
| "rt (Node l x r) = x"

fun inpath :: "iter \<Rightarrow> nat \<Rightarrow> nat \<Rightarrow> handle tree \<Rightarrow> bool" where
  "inpath it D d Leaf = False"
| "inpath it D d (Node l x r) =
     (D = d \<or> (d < D \<and> (if it_branch it d
                          then it_path_h it d = rt r \<and> inpath it D (Suc d) r
                          else it_path_h it d = rt l \<and> inpath it D (Suc d) l)))"

fun remaining :: "iter \<Rightarrow> nat \<Rightarrow> nat \<Rightarrow> handle tree \<Rightarrow> handle list" where
  "remaining it D d Leaf = []"
| "remaining it D d (Node l x r) =
     (if D = d then x # inorder r
      else if it_branch it d then remaining it D (Suc d) r
      else remaining it D (Suc d) l @ x # inorder r)"

definition nodeat :: "iter \<Rightarrow> abs_plus_root \<Rightarrow> nat \<Rightarrow> handle" where
  "nodeat it s d = (if d = 0 then root s else it_path_h it (d - 1))"

definition it_inv :: "abs_plus_root \<Rightarrow> handle tree \<Rightarrow> iter \<Rightarrow> handle list \<Rightarrow> bool" where
  "it_inv s T it xs =
     (\<exists>D. it_depth it = of_nat D \<and> inpath it D 0 T \<and> remaining it D 0 T = xs)"

(*PROOFS*)

section \<open>Basic facts\<close>

lemma no_faults_reads [simp]:
  "no_faults s \<Longrightarrow> get_lt s h a = (lnk_lt s h, s)"
  "no_faults s \<Longrightarrow> get_gt s h a = (lnk_gt s h, s)"
  "no_faults s \<Longrightarrow> get_bf s h = (bal s h, s)"
  "no_faults s \<Longrightarrow> \<not> read_error s"
  by (simp_all add: no_faults_def get_lt_def get_less_def get_gt_def get_greater_def
      get_bf_def get_balance_factor_def read_error_def)

lemma cmp_k_n_simps:
  "cmp_k_n s k h = 0 \<longleftrightarrow> k = keyv s h"
  "cmp_k_n s k h <s 0 \<longleftrightarrow> k < keyv s h"
  "0 <s cmp_k_n s k h \<longleftrightarrow> keyv s h < k"
  by (simp_all add: cmp_k_n_def compare_key_node_def word_sless_alt)

lemma mask_high: "MASK_HIGH_BIT = 2 ^ 31"
  unfolding MASK_HIGH_BIT_def by code_simp

lemma same_sign_test:
  "(a XOR b) AND MASK_HIGH_BIT = 0 \<longleftrightarrow> ((a <s 0) = (b <s 0))"
  for a b :: cint
proof -
  have "(a XOR b) AND MASK_HIGH_BIT = 0 \<longleftrightarrow> \<not> bit (a XOR b) 31"
    unfolding mask_high by (rule and_exp_eq_0_iff_not_bit)
  also have "\<dots> \<longleftrightarrow> (bit a 31 = bit b 31)"
    by (auto simp: bit_xor_iff)
  also have "\<dots> \<longleftrightarrow> ((a <s 0) = (b <s 0))"
    using bit_last_iff[of a] bit_last_iff[of b] by (simp add: word_sless_alt)
  finally show ?thesis .
qed

lemma not_sign_test:
  "(NOT a) AND MASK_HIGH_BIT = 0 \<longleftrightarrow> a <s 0" for a :: cint
  using same_sign_test[of a "- 1"] by (simp add: word_sless_alt)

lemma search_type_nonzero [simp]: "EQUAL \<noteq> 0" "LESS \<noteq> 0" "GREATER \<noteq> 0"
  by (simp_all add: EQUAL_def LESS_def GREATER_def)

lemma cint_sless [simp]:
  "(- 1::cint) <s 0" "\<not> (1::cint) <s 0"  "\<not> (0::cint) <s 0" "(0::cint) <s 1"
  "\<not> (0::cint) <s - 1"
  by (simp_all add: word_sless_alt)

lemma search_type_bits [simp]:
  "EQUAL AND EQUAL \<noteq> 0" "LESS AND EQUAL = 0" "GREATER AND EQUAL = 0"
  "LESS_EQUAL AND EQUAL \<noteq> 0" "GREATER_EQUAL AND EQUAL \<noteq> 0"
  "EQUAL AND LESS = 0" "LESS AND LESS \<noteq> 0" "GREATER AND LESS = 0"
  "LESS_EQUAL AND LESS \<noteq> 0" "GREATER_EQUAL AND LESS = 0"
  "EQUAL AND GREATER = 0" "LESS AND GREATER = 0" "GREATER AND GREATER \<noteq> 0"
  "LESS_EQUAL AND GREATER = 0" "GREATER_EQUAL AND GREATER \<noteq> 0"
  unfolding EQUAL_def LESS_def GREATER_def LESS_EQUAL_def GREATER_EQUAL_def by simp_all

lemma target_cmp_of_simps [simp]:
  "target_cmp_of EQUAL = 0" "target_cmp_of LESS = 1" "target_cmp_of LESS_EQUAL = 1"
  "target_cmp_of GREATER = - 1" "target_cmp_of GREATER_EQUAL = - 1"
  by (simp_all add: target_cmp_of_def LESS_def GREATER_def EQUAL_def LESS_EQUAL_def
      GREATER_EQUAL_def)

lemma ordered_node:
  "ordered s (Node l x r) \<longleftrightarrow>
     ordered s l \<and> ordered s r \<and> (\<forall>y \<in> set_tree l. keyv s y < keyv s x)
       \<and> (\<forall>y \<in> set_tree r. keyv s x < keyv s y)
       \<and> (\<forall>y \<in> set_tree l. \<forall>z \<in> set_tree r. keyv s y < keyv s z)"
  by (auto simp: ordered_def sorted_wrt_append)

lemma filter_none: "\<forall>y \<in> set xs. \<not> P y \<Longrightarrow> filter P xs = []"
  by (induction xs) auto

lemma filter_all: "\<forall>y \<in> set xs. P y \<Longrightarrow> filter P xs = xs"
  by (induction xs) auto

lemma pick_last_null: "pick_last null xs = last_or_null xs"
  by (induction xs) (auto simp: pick_last_def)

lemma pick_first_null: "pick_first null xs = first_or_null xs"
  by (cases xs) (auto simp: pick_first_def)

section \<open>Search\<close>

text \<open>
  One lemma for each search mode, by induction on the tree, with the best match so far
  as an accumulator.
\<close>

lemma search_loop_less:
  "is_tree s h t \<Longrightarrow> ordered s t \<Longrightarrow> no_faults s \<Longrightarrow>
   search_loop k LESS 1 m h s
     = Some (pick_last m (filter (\<lambda>x. keyv s x < k) (inorder t)), s)"
proof (induction t arbitrary: h m)
  case Leaf
  then show ?case
    by (subst search_loop.simps) (simp add: pick_last_def)
next
  case (Node l x r)
  from Node.prems have h: "h = x" "x \<noteq> null" and tl: "is_tree s (lnk_lt s x) l"
    and tr: "is_tree s (lnk_gt s x) r"
    by simp_all
  from Node.prems(2) have ol: "ordered s l" and or: "ordered s r"
    and kl: "\<forall>y \<in> set_tree l. keyv s y < keyv s x"
    and kr: "\<forall>y \<in> set_tree r. keyv s x < keyv s y"
    by (simp_all add: ordered_node)
  note nf = Node.prems(3)
  consider "k < keyv s x" | "k = keyv s x" | "keyv s x < k"
    by linarith
  then show ?case
  proof cases
    case 1
    have f: "filter (\<lambda>x. keyv s x < k) (inorder r) = []"
      using kr 1 by (intro filter_none) auto
    show ?thesis
      using 1 f h nf Node.IH(1)[OF tl ol nf, of m]
      by (subst search_loop.simps)
        (simp add: Let_def cmp_k_n_simps same_sign_test not_sign_test pick_last_def)
  next
    case 2
    have f: "filter (\<lambda>x. keyv s x < k) (inorder r) = []"
      using kr 2 by (intro filter_none) auto
    show ?thesis
      using 2 f h nf Node.IH(1)[OF tl ol nf, of m]
      by (subst search_loop.simps)
        (simp add: Let_def cmp_k_n_simps same_sign_test not_sign_test pick_last_def)
  next
    case 3
    have f: "filter (\<lambda>x. keyv s x < k) (inorder l) = inorder l"
      using kl 3 by (intro filter_all) auto
    show ?thesis
      using 3 f h nf Node.IH(2)[OF tr or nf, of x]
      by (subst search_loop.simps)
        (simp add: Let_def cmp_k_n_simps same_sign_test not_sign_test pick_last_def)
  qed
qed

lemma search_loop_less_equal:
  "is_tree s h t \<Longrightarrow> ordered s t \<Longrightarrow> no_faults s \<Longrightarrow>
   search_loop k LESS_EQUAL 1 m h s
     = Some (pick_last m (filter (\<lambda>x. keyv s x \<le> k) (inorder t)), s)"
proof (induction t arbitrary: h m)
  case Leaf
  then show ?case
    by (subst search_loop.simps) (simp add: pick_last_def)
next
  case (Node l x r)
  from Node.prems have h: "h = x" "x \<noteq> null" and tl: "is_tree s (lnk_lt s x) l"
    and tr: "is_tree s (lnk_gt s x) r"
    by simp_all
  from Node.prems(2) have ol: "ordered s l" and or: "ordered s r"
    and kl: "\<forall>y \<in> set_tree l. keyv s y < keyv s x"
    and kr: "\<forall>y \<in> set_tree r. keyv s x < keyv s y"
    by (simp_all add: ordered_node)
  note nf = Node.prems(3)
  consider "k < keyv s x" | "k = keyv s x" | "keyv s x < k"
    by linarith
  then show ?case
  proof cases
    case 1
    have f: "filter (\<lambda>x. keyv s x \<le> k) (inorder r) = []"
      using kr 1 by (intro filter_none) auto
    show ?thesis
      using 1 f h nf Node.IH(1)[OF tl ol nf, of m]
      by (subst search_loop.simps)
        (simp add: Let_def cmp_k_n_simps same_sign_test not_sign_test pick_last_def)
  next
    case 2
    have f: "filter (\<lambda>x. keyv s x \<le> k) (inorder r) = []"
      using kr 2 by (intro filter_none) auto
    show ?thesis
      using 2 f h nf
      by (subst search_loop.simps)
        (simp add: Let_def cmp_k_n_simps same_sign_test not_sign_test pick_last_def)
  next
    case 3
    have f: "filter (\<lambda>x. keyv s x \<le> k) (inorder l) = inorder l"
      using kl 3 by (intro filter_all) auto
    show ?thesis
      using 3 f h nf Node.IH(2)[OF tr or nf, of x]
      by (subst search_loop.simps)
        (simp add: Let_def cmp_k_n_simps same_sign_test not_sign_test pick_last_def)
  qed
qed

lemma search_loop_greater:
  "is_tree s h t \<Longrightarrow> ordered s t \<Longrightarrow> no_faults s \<Longrightarrow>
   search_loop k GREATER (- 1) m h s
     = Some (pick_first m (filter (\<lambda>x. k < keyv s x) (inorder t)), s)"
proof (induction t arbitrary: h m)
  case Leaf
  then show ?case
    by (subst search_loop.simps) (simp add: pick_first_def)
next
  case (Node l x r)
  from Node.prems have h: "h = x" "x \<noteq> null" and tl: "is_tree s (lnk_lt s x) l"
    and tr: "is_tree s (lnk_gt s x) r"
    by simp_all
  from Node.prems(2) have ol: "ordered s l" and or: "ordered s r"
    and kl: "\<forall>y \<in> set_tree l. keyv s y < keyv s x"
    and kr: "\<forall>y \<in> set_tree r. keyv s x < keyv s y"
    by (simp_all add: ordered_node)
  note nf = Node.prems(3)
  consider "k < keyv s x" | "k = keyv s x" | "keyv s x < k"
    by linarith
  then show ?case
  proof cases
    case 1
    show ?thesis
      using 1 h nf Node.IH(1)[OF tl ol nf, of x]
      by (subst search_loop.simps)
        (simp add: Let_def cmp_k_n_simps same_sign_test not_sign_test pick_first_def)
  next
    case 2
    have f: "filter (\<lambda>x. k < keyv s x) (inorder l) = []"
      using kl 2 by (intro filter_none) auto
    show ?thesis
      using 2 f h nf Node.IH(2)[OF tr or nf, of m]
      by (subst search_loop.simps)
        (simp add: Let_def cmp_k_n_simps same_sign_test not_sign_test pick_first_def)
  next
    case 3
    have f: "filter (\<lambda>x. k < keyv s x) (inorder l) = []"
      using kl 3 by (intro filter_none) auto
    show ?thesis
      using 3 f h nf Node.IH(2)[OF tr or nf, of m]
      by (subst search_loop.simps)
        (simp add: Let_def cmp_k_n_simps same_sign_test not_sign_test pick_first_def)
  qed
qed

lemma search_loop_greater_equal:
  "is_tree s h t \<Longrightarrow> ordered s t \<Longrightarrow> no_faults s \<Longrightarrow>
   search_loop k GREATER_EQUAL (- 1) m h s
     = Some (pick_first m (filter (\<lambda>x. k \<le> keyv s x) (inorder t)), s)"
proof (induction t arbitrary: h m)
  case Leaf
  then show ?case
    by (subst search_loop.simps) (simp add: pick_first_def)
next
  case (Node l x r)
  from Node.prems have h: "h = x" "x \<noteq> null" and tl: "is_tree s (lnk_lt s x) l"
    and tr: "is_tree s (lnk_gt s x) r"
    by simp_all
  from Node.prems(2) have ol: "ordered s l" and or: "ordered s r"
    and kl: "\<forall>y \<in> set_tree l. keyv s y < keyv s x"
    and kr: "\<forall>y \<in> set_tree r. keyv s x < keyv s y"
    by (simp_all add: ordered_node)
  note nf = Node.prems(3)
  consider "k < keyv s x" | "k = keyv s x" | "keyv s x < k"
    by linarith
  then show ?case
  proof cases
    case 1
    show ?thesis
      using 1 h nf Node.IH(1)[OF tl ol nf, of x]
      by (subst search_loop.simps)
        (simp add: Let_def cmp_k_n_simps same_sign_test not_sign_test pick_first_def)
  next
    case 2
    have f: "filter (\<lambda>x. k \<le> keyv s x) (inorder l) = []"
      using kl 2 by (intro filter_none) auto
    show ?thesis
      using 2 f h nf
      by (subst search_loop.simps)
        (simp add: Let_def cmp_k_n_simps same_sign_test not_sign_test pick_first_def)
  next
    case 3
    have f: "filter (\<lambda>x. k \<le> keyv s x) (inorder l) = []"
      using kl 3 by (intro filter_none) auto
    show ?thesis
      using 3 f h nf Node.IH(2)[OF tr or nf, of m]
      by (subst search_loop.simps)
        (simp add: Let_def cmp_k_n_simps same_sign_test not_sign_test pick_first_def)
  qed
qed

lemma search_loop_equal:
  "is_tree s h t \<Longrightarrow> ordered s t \<Longrightarrow> no_faults s \<Longrightarrow>
   search_loop k EQUAL 0 m h s
     = Some (pick_first m (filter (\<lambda>x. keyv s x = k) (inorder t)), s)"
proof (induction t arbitrary: h m)
  case Leaf
  then show ?case
    by (subst search_loop.simps) (simp add: pick_first_def)
next
  case (Node l x r)
  from Node.prems have h: "h = x" "x \<noteq> null" and tl: "is_tree s (lnk_lt s x) l"
    and tr: "is_tree s (lnk_gt s x) r"
    by simp_all
  from Node.prems(2) have ol: "ordered s l" and or: "ordered s r"
    and kl: "\<forall>y \<in> set_tree l. keyv s y < keyv s x"
    and kr: "\<forall>y \<in> set_tree r. keyv s x < keyv s y"
    by (simp_all add: ordered_node)
  note nf = Node.prems(3)
  consider "k < keyv s x" | "k = keyv s x" | "keyv s x < k"
    by linarith
  then show ?case
  proof cases
    case 1
    have f: "filter (\<lambda>x. keyv s x = k) (inorder r) = []"
      using kr 1 by (intro filter_none) auto
    show ?thesis
      using 1 f h nf Node.IH(1)[OF tl ol nf, of m]
      by (subst search_loop.simps)
        (simp add: Let_def cmp_k_n_simps same_sign_test not_sign_test pick_first_def)
  next
    case 2
    have f: "filter (\<lambda>x. keyv s x = k) (inorder l) = []"
      using kl 2 by (intro filter_none) auto
    show ?thesis
      using 2 f h nf
      by (subst search_loop.simps)
        (simp add: Let_def cmp_k_n_simps same_sign_test not_sign_test pick_first_def)
  next
    case 3
    have f: "filter (\<lambda>x. keyv s x = k) (inorder l) = []"
      using kl 3 by (intro filter_none) auto
    show ?thesis
      using 3 f h nf Node.IH(2)[OF tr or nf, of m]
      by (subst search_loop.simps)
        (simp add: Let_def cmp_k_n_simps same_sign_test not_sign_test pick_first_def)
  qed
qed

section \<open>Facts about the concrete trees\<close>

lemma demo5_tree: "is_tree demo5 (root demo5) tree5"
  by (simp add: demo5_def tree5_def blank_def null_def)

lemma demo5_ordered: "ordered demo5 tree5"
  by (simp add: ordered_def demo5_def tree5_def blank_def)

lemma demo5_balanced: "balanced demo5 tree5"
  by (simp add: demo5_def tree5_def blank_def)

lemma demo5_no_faults: "no_faults demo5"
  by (simp add: no_faults_def demo5_def blank_def)

lemma demo1_facts:
  "is_tree demo1 (root demo1) (Node Leaf 1 Leaf)" "ordered demo1 (Node Leaf 1 Leaf)"
  "balanced demo1 (Node Leaf 1 Leaf)" "no_faults demo1"
  by (simp_all add: demo1_def blank_def null_def ordered_def no_faults_def)

section \<open>Claims about search\<close>

text \<open>
  C5, as amended. For a stored search tree and a key \<open>k\<close>, with no read error,
  \<open>search k LESS\<close> returns the rightmost node whose key is strictly less than \<open>k\<close>, and
  \<open>search k GREATER\<close> returns the leftmost node whose key is strictly greater than \<open>k\<close>;
  each returns the null handle when there is no such node. The tree is left as it was.
  (A node whose key equals \<open>k\<close> is returned only by the modes that include \<open>EQUAL\<close>.)
\<close>

theorem search_open_modes:
  assumes "is_tree s (root s) t" and "ordered s t" and "no_faults s"
  shows "search k LESS s = Some (last_or_null (filter (\<lambda>x. keyv s x < k) (inorder t)), s)
    \<and> search k GREATER s = Some (first_or_null (filter (\<lambda>x. k < keyv s x) (inorder t)), s)"
  using search_loop_less[OF assms, of k null] search_loop_greater[OF assms, of k null]
  by (simp add: search_def pick_last_null pick_first_null)

theorem search_open_modes_witness:
  "search 30 LESS demo5 = Some (2, demo5) \<and> search 30 GREATER demo5 = Some (4, demo5)"
  using search_open_modes[OF demo5_tree demo5_ordered demo5_no_faults, of 30]
  by (simp add: tree5_def demo5_def blank_def)

text \<open>
  C5 as stated fails: in the tree whose only node is handle \<open>1\<close> with key \<open>10\<close>, that
  node is the rightmost node with key \<open>\<le> 10\<close>, but \<open>search 10 LESS\<close> returns null.
\<close>

theorem search_less_counterexample:
  "is_tree demo1 (root demo1) (Node Leaf 1 Leaf) \<and> ordered demo1 (Node Leaf 1 Leaf)
   \<and> balanced demo1 (Node Leaf 1 Leaf) \<and> no_faults demo1
   \<and> last_or_null (filter (\<lambda>x. keyv demo1 x \<le> 10) (inorder (Node Leaf 1 Leaf))) = 1
   \<and> search 10 LESS demo1 = Some (null, demo1) \<and> null \<noteq> 1"
proof -
  have "search 10 LESS demo1 = Some (null, demo1)"
    using search_loop_less[OF demo1_facts(1,2,4), of 10 null]
    by (simp add: search_def pick_last_def demo1_def blank_def)
  then show ?thesis
    using demo1_facts by (simp add: demo1_def blank_def null_def)
qed

text \<open>
  C7. In a stored tree whose nodes in order carry exactly the keys 10, 20, 30, 40, 50,
  \<open>search 25 LESS_EQUAL\<close> returns the node with key 20, \<open>search 25 GREATER_EQUAL\<close>
  returns the node with key 30, and \<open>search 25 EQUAL\<close> returns null.
\<close>

theorem search_scenario:
  assumes "is_tree s (root s) t" and "no_faults s"
    and "inorder t = [a, b, c, d, e]"
    and "keyv s a = 10" "keyv s b = 20" "keyv s c = 30" "keyv s d = 40" "keyv s e = 50"
  shows "search 25 LESS_EQUAL s = Some (b, s) \<and> search 25 GREATER_EQUAL s = Some (c, s)
    \<and> search 25 EQUAL s = Some (null, s)"
proof -
  have o: "ordered s t"
    using assms(3-) by (simp add: ordered_def)
  show ?thesis
    using search_loop_less_equal[OF assms(1) o assms(2), of 25 null]
      search_loop_greater_equal[OF assms(1) o assms(2), of 25 null]
      search_loop_equal[OF assms(1) o assms(2), of 25 null] assms(3-)
    by (simp add: search_def pick_last_def pick_first_def)
qed

theorem search_scenario_witness:
  "search 25 LESS_EQUAL demo5 = Some (2, demo5)
    \<and> search 25 GREATER_EQUAL demo5 = Some (3, demo5)
    \<and> search 25 EQUAL demo5 = Some (null, demo5)"
  using search_scenario[OF demo5_tree demo5_no_faults, of 1 2 3 4 5]
  by (simp add: tree5_def demo5_def blank_def)

section \<open>Frames and rebalancing\<close>

section \<open>Reading through writes\<close>

lemma set_lt_fields [simp]:
  "lnk_lt (set_lt s h v) = (lnk_lt s)(h := v)"
  "lnk_gt (set_lt s h v) = lnk_gt s"
  "bal (set_lt s h v) = bal s"
  "keyv (set_lt s h v) = keyv s"
  "root (set_lt s h v) = root s"
  "max_depth (set_lt s h v) = max_depth s"
  "no_faults (set_lt s h v) = no_faults s"
  by (simp_all add: set_lt_def set_less_def no_faults_def)

lemma set_gt_fields [simp]:
  "lnk_lt (set_gt s h v) = lnk_lt s"
  "lnk_gt (set_gt s h v) = (lnk_gt s)(h := v)"
  "bal (set_gt s h v) = bal s"
  "keyv (set_gt s h v) = keyv s"
  "root (set_gt s h v) = root s"
  "max_depth (set_gt s h v) = max_depth s"
  "no_faults (set_gt s h v) = no_faults s"
  by (simp_all add: set_gt_def set_greater_def no_faults_def)

lemma set_bf_fields [simp]:
  "lnk_lt (set_bf s h b) = lnk_lt s"
  "lnk_gt (set_bf s h b) = lnk_gt s"
  "bal (set_bf s h b) = (bal s)(h := b)"
  "keyv (set_bf s h b) = keyv s"
  "root (set_bf s h b) = root s"
  "max_depth (set_bf s h b) = max_depth s"
  "no_faults (set_bf s h b) = no_faults s"
  by (simp_all add: set_bf_def set_balance_factor_def no_faults_def)

lemma root_update_no_faults [simp]: "no_faults (s\<lparr>root := r\<rparr>) = no_faults s"
  by (simp add: no_faults_def)

lemma is_tree_cong:
  "(\<And>a. a \<in> set_tree t \<Longrightarrow> lnk_lt s' a = lnk_lt s a \<and> lnk_gt s' a = lnk_gt s a)
   \<Longrightarrow> is_tree s' h t = is_tree s h t"
  by (induction t arbitrary: h) auto

lemma balanced_cong:
  "(\<And>a. a \<in> set_tree t \<Longrightarrow> bal s' a = bal s a) \<Longrightarrow> balanced s' t = balanced s t"
  by (induction t) auto

lemma is_tree_writes [simp]:
  "h \<notin> set_tree t \<Longrightarrow> is_tree (set_lt s h v) p t = is_tree s p t"
  "h \<notin> set_tree t \<Longrightarrow> is_tree (set_gt s h v) p t = is_tree s p t"
  "is_tree (set_bf s h b) p t = is_tree s p t"
  "is_tree (s\<lparr>root := r\<rparr>) p t = is_tree s p t"
  by (auto intro!: is_tree_cong)

lemma balanced_writes [simp]:
  "balanced (set_lt s h v) t = balanced s t"
  "balanced (set_gt s h v) t = balanced s t"
  "h \<notin> set_tree t \<Longrightarrow> balanced (set_bf s h b) t = balanced s t"
  "balanced (s\<lparr>root := r\<rparr>) t = balanced s t"
  by (auto intro!: balanced_cong)

lemma ordered_writes [simp]:
  "ordered (set_lt s h v) t = ordered s t"
  "ordered (set_gt s h v) t = ordered s t"
  "ordered (set_bf s h b) t = ordered s t"
  "ordered (s\<lparr>root := r\<rparr>) t = ordered s t"
  by (simp_all add: ordered_def)

lemma is_tree_null [simp]: "is_tree s null t \<longleftrightarrow> t = Leaf"
  by (cases t) auto

lemma is_tree_fun: "is_tree s h t \<Longrightarrow> is_tree s h t' \<Longrightarrow> t' = t"
  by (induction t arbitrary: h t') (case_tac t'; auto)+

lemma null_notin: "is_tree s h t \<Longrightarrow> null \<notin> set_tree t"
  by (induction t arbitrary: h) auto

lemma ordered_distinct: "ordered s t \<Longrightarrow> distinct (inorder t)"
  unfolding ordered_def
  by (metis distinct_map strict_sorted_iff sorted_wrt_map distinct_map sorted_wrt.simps strict_sorted_iff)

lemma is_tree_frame:
  "is_tree s p t \<Longrightarrow>
   \<forall>a \<in> set_tree t. lnk_lt s' a = lnk_lt s a \<and> lnk_gt s' a = lnk_gt s a \<Longrightarrow> is_tree s' p t"
  using is_tree_cong[of t s' s p] by simp

lemma balanced_frame:
  "balanced s t \<Longrightarrow> \<forall>a \<in> set_tree t. bal s' a = bal s a \<Longrightarrow> balanced s' t"
  using balanced_cong[of t s' s] by simp

lemma frame_is_tree:
  "frame A s s' \<Longrightarrow> is_tree s p t \<Longrightarrow> A \<inter> set_tree t = {} \<Longrightarrow> is_tree s' p t"
  by (rule is_tree_frame[where s = s]) (auto simp: frame_def)

lemma frame_balanced:
  "frame A s s' \<Longrightarrow> balanced s t \<Longrightarrow> A \<inter> set_tree t = {} \<Longrightarrow> balanced s' t"
  by (rule balanced_frame[where s = s]) (auto simp: frame_def)

lemma frame_mono: "frame A s s' \<Longrightarrow> A \<subseteq> B \<Longrightarrow> frame B s s'"
  by (auto simp: frame_def)

lemma frame_refl [simp]: "frame A s s"
  by (simp add: frame_def)

lemma frame_trans: "frame A s s' \<Longrightarrow> frame B s' s'' \<Longrightarrow> frame (A \<union> B) s s''"
  by (auto simp: frame_def)

lemma frame_ordered: "frame A s s' \<Longrightarrow> ordered s' t = ordered s t"
  by (simp add: frame_def ordered_def)

lemma balance_single_right:
  assumes nf: "no_faults s"
    and t: "is_tree s x (Node l x (Node rl y rr))"
    and d: "distinct (inorder (Node l x (Node rl y rr)))"
    and b: "balanced s l" "balanced s (Node rl y rr)"
    and pos: "0 < bal s x" and bhy: "0 \<le> bal s y"
    and hgt: "height (Node rl y rr) = height l + 2"
  shows "\<exists>s'. balance x s = (y, s') \<and> is_tree s' y (Node (Node l x rl) y rr)
           \<and> balanced s' (Node (Node l x rl) y rr) \<and> root s' = root s
           \<and> height (Node (Node l x rl) y rr) = (if bal s y = 0 then height l + 3 else height l + 2)
           \<and> (bal s' y = 0 \<longleftrightarrow> bal s y \<noteq> 0)
           \<and> frame {x, y} s s'"
proof -
  from t have lk: "lnk_gt s x = y" "x \<noteq> null" "y \<noteq> null"
    and st: "is_tree s (lnk_lt s x) l" "is_tree s (lnk_lt s y) rl" "is_tree s (lnk_gt s y) rr"
    by auto
  from d have ne: "x \<noteq> y" "y \<noteq> x"
    and ni: "x \<notin> set_tree l" "y \<notin> set_tree l" "x \<notin> set_tree rl" "y \<notin> set_tree rl"
      "x \<notin> set_tree rr" "y \<notin> set_tree rr"
    by auto
  from b(2) have byv: "bal s y = int (height rr) - int (height rl)" "bal s y \<in> {-1, 0, 1}"
    and bs: "balanced s rl" "balanced s rr"
    by auto
  define s' where "s' = snd (balance x s)"
  have eq: "balance x s =
    (y, (if bal s y = 0
         then set_bf (set_bf (set_lt (set_gt s x (lnk_lt s y)) y x) y (- 1)) x 1
         else set_bf (set_bf (set_lt (set_gt s x (lnk_lt s y)) y x) y 0) x 0))"
    using nf pos bhy lk(1) ne by (simp add: balance_def Let_def)
  have r: "balance x s = (y, s')"
    unfolding s'_def eq by simp
  have links: "lnk_lt s' = (lnk_lt s)(y := x)" "lnk_gt s' = (lnk_gt s)(x := lnk_lt s y)"
    and other: "keyv s' = keyv s" "root s' = root s" "max_depth s' = max_depth s" "no_faults s'"
    unfolding s'_def eq using nf by simp_all
  have bals: "bal s' x = (if bal s y = 0 then 1 else 0)"
    "bal s' y = (if bal s y = 0 then - 1 else 0)"
    "\<And>a. a \<notin> {x, y} \<Longrightarrow> bal s' a = bal s a"
    unfolding s'_def eq using ne by simp_all
  have fr: "frame {x, y} s s'"
    using nf by (auto simp add: frame_def links other bals)
  have sub: "is_tree s' (lnk_lt s x) l" "is_tree s' (lnk_lt s y) rl" "is_tree s' (lnk_gt s y) rr"
    using st ni by (auto intro!: frame_is_tree[OF fr])
  have t': "is_tree s' y (Node (Node l x rl) y rr)"
    using sub lk ne by (simp add: links)
  have bsub: "balanced s' l" "balanced s' rl" "balanced s' rr"
    using b(1) bs ni by (auto intro!: frame_balanced[OF fr])
  have ar: "bal s' x = int (height rl) - int (height l)" "bal s' x \<in> {- 1, 0, 1}"
    "bal s' y = int (height rr) - int (height (Node l x rl))" "bal s' y \<in> {- 1, 0, 1}"
    using byv bhy hgt by (auto simp: bals(1,2))
  have b': "balanced s' (Node (Node l x rl) y rr)"
    using bsub ar by simp
  have h: "height (Node (Node l x rl) y rr) = (if bal s y = 0 then height l + 3 else height l + 2)"
    using byv bhy hgt by auto
  have "bal s' y = 0 \<longleftrightarrow> bal s y \<noteq> 0"
    by (simp add: bals(2))
  then show ?thesis
    using r t' b' h other(2) fr by blast
qed

lemma balance_double_right:
  assumes nf: "no_faults s"
    and t: "is_tree s x (Node l x (Node (Node rll z rlr) y rr))"
    and d: "distinct (inorder (Node l x (Node (Node rll z rlr) y rr)))"
    and b: "balanced s l" "balanced s (Node (Node rll z rlr) y rr)"
    and pos: "0 < bal s x" and bhy: "bal s y < 0"
    and hgt: "height (Node (Node rll z rlr) y rr) = height l + 2"
  shows "\<exists>s'. balance x s = (z, s') \<and> is_tree s' z (Node (Node l x rll) z (Node rlr y rr))
           \<and> balanced s' (Node (Node l x rll) z (Node rlr y rr)) \<and> root s' = root s
           \<and> height (Node (Node l x rll) z (Node rlr y rr)) = height l + 2
           \<and> bal s' z = 0
           \<and> frame {x, y, z} s s'"
proof -
  from t have lk: "lnk_gt s x = y" "lnk_lt s y = z" "x \<noteq> null" "y \<noteq> null" "z \<noteq> null"
    and st: "is_tree s (lnk_lt s x) l" "is_tree s (lnk_lt s z) rll" "is_tree s (lnk_gt s z) rlr"
      "is_tree s (lnk_gt s y) rr"
    by auto
  from d have ne: "x \<noteq> y" "x \<noteq> z" "y \<noteq> z" "z \<noteq> x" "y \<noteq> x" "z \<noteq> y"
    and ni: "x \<notin> set_tree l" "y \<notin> set_tree l" "z \<notin> set_tree l"
      "x \<notin> set_tree rll" "y \<notin> set_tree rll" "z \<notin> set_tree rll"
      "x \<notin> set_tree rlr" "y \<notin> set_tree rlr" "z \<notin> set_tree rlr"
      "x \<notin> set_tree rr" "y \<notin> set_tree rr" "z \<notin> set_tree rr"
    by auto
  from b(2) have bz: "bal s z = int (height rlr) - int (height rll)" "bal s z \<in> {-1, 0, 1}"
    and byv: "bal s y = int (height rr) - int (height (Node rll z rlr))" "bal s y \<in> {-1, 0, 1}"
    and bs: "balanced s rll" "balanced s rlr" "balanced s rr"
    by auto
  have h: "height (Node (Node l x rll) z (Node rlr y rr)) = height l + 2"
    using bz byv bhy hgt by auto
  define s' where "s' = snd (balance x s)"
  define s1 where "s1 = set_gt (set_lt (set_lt (set_gt s x (lnk_lt s z)) y (lnk_gt s z)) z x) z y"
  have eq: "balance x s =
    (z, (if bal s z \<noteq> 0 then
           set_bf (if 0 < bal s z then set_bf (set_bf s1 x (- 1)) y 0
                   else set_bf (set_bf s1 y 1) x 0) z 0
         else set_bf (set_bf s1 x 0) y 0))"
    using nf pos bhy lk(1,2) ne by (simp add: balance_def Let_def s1_def)
  have r: "balance x s = (z, s')"
    unfolding s'_def eq by simp
  have links: "lnk_lt s' = (lnk_lt s)(y := lnk_gt s z, z := x)"
    "lnk_gt s' = (lnk_gt s)(x := lnk_lt s z, z := y)"
    and other: "keyv s' = keyv s" "root s' = root s" "max_depth s' = max_depth s" "no_faults s'"
    unfolding s'_def eq s1_def using nf by simp_all
  have bals: "bal s' x = (if 0 < bal s z then - 1 else 0)"
    "bal s' y = (if bal s z < 0 then 1 else 0)" "bal s' z = 0"
    "\<And>a. a \<notin> {x, y, z} \<Longrightarrow> bal s' a = bal s a"
    unfolding s'_def eq s1_def using ne by simp_all
  have fr: "frame {x, y, z} s s'"
    using nf by (auto simp add: frame_def links other bals)
  have sub: "is_tree s' (lnk_lt s x) l" "is_tree s' (lnk_lt s z) rll"
    "is_tree s' (lnk_gt s z) rlr" "is_tree s' (lnk_gt s y) rr"
    using st ni by (auto intro!: frame_is_tree[OF fr])
  have t': "is_tree s' z (Node (Node l x rll) z (Node rlr y rr))"
    using sub lk ne by (simp add: links)
  have bsub: "balanced s' l" "balanced s' rll" "balanced s' rlr" "balanced s' rr"
    using b(1) bs ni by (auto intro!: frame_balanced[OF fr])
  have ar: "bal s' x = int (height rll) - int (height l)" "bal s' x \<in> {- 1, 0, 1}"
    "bal s' y = int (height rr) - int (height rlr)" "bal s' y \<in> {- 1, 0, 1}"
    "bal s' z = int (height (Node rlr y rr)) - int (height (Node l x rll))"
    using bz byv bhy hgt by (auto simp: bals(1-3))
  have b': "balanced s' (Node (Node l x rll) z (Node rlr y rr))"
    using bsub ar bals(3) by simp
  show ?thesis
    using r t' b' h other(2) bals(3) fr by blast
qed

lemma balance_single_left:
  assumes nf: "no_faults s"
    and t: "is_tree s x (Node (Node ll y lr) x r)"
    and d: "distinct (inorder (Node (Node ll y lr) x r))"
    and b: "balanced s r" "balanced s (Node ll y lr)"
    and pos: "\<not> 0 < bal s x" and bhy: "bal s y \<le> 0"
    and hgt: "height (Node ll y lr) = height r + 2"
  shows "\<exists>s'. balance x s = (y, s') \<and> is_tree s' y (Node ll y (Node lr x r))
           \<and> balanced s' (Node ll y (Node lr x r)) \<and> root s' = root s
           \<and> height (Node ll y (Node lr x r)) = (if bal s y = 0 then height r + 3 else height r + 2)
           \<and> (bal s' y = 0 \<longleftrightarrow> bal s y \<noteq> 0)
           \<and> frame {x, y} s s'"
proof -
  from t have lk: "lnk_lt s x = y" "x \<noteq> null" "y \<noteq> null"
    and st: "is_tree s (lnk_gt s x) r" "is_tree s (lnk_lt s y) ll" "is_tree s (lnk_gt s y) lr"
    by auto
  from d have ne: "x \<noteq> y" "y \<noteq> x"
    and ni: "x \<notin> set_tree r" "y \<notin> set_tree r" "x \<notin> set_tree ll" "y \<notin> set_tree ll"
      "x \<notin> set_tree lr" "y \<notin> set_tree lr"
    by auto
  from b(2) have byv: "bal s y = int (height lr) - int (height ll)" "bal s y \<in> {-1, 0, 1}"
    and bs: "balanced s ll" "balanced s lr"
    by auto
  define s' where "s' = snd (balance x s)"
  have eq: "balance x s =
    (y, (if bal s y = 0
         then set_bf (set_bf (set_gt (set_lt s x (lnk_gt s y)) y x) y 1) x (- 1)
         else set_bf (set_bf (set_gt (set_lt s x (lnk_gt s y)) y x) y 0) x 0))"
    using nf pos bhy lk(1) ne by (simp add: balance_def Let_def)
  have r: "balance x s = (y, s')"
    unfolding s'_def eq by simp
  have links: "lnk_gt s' = (lnk_gt s)(y := x)" "lnk_lt s' = (lnk_lt s)(x := lnk_gt s y)"
    and other: "keyv s' = keyv s" "root s' = root s" "max_depth s' = max_depth s" "no_faults s'"
    unfolding s'_def eq using nf by simp_all
  have bals: "bal s' x = (if bal s y = 0 then - 1 else 0)"
    "bal s' y = (if bal s y = 0 then 1 else 0)"
    "\<And>a. a \<notin> {x, y} \<Longrightarrow> bal s' a = bal s a"
    unfolding s'_def eq using ne by simp_all
  have fr: "frame {x, y} s s'"
    using nf by (auto simp add: frame_def links other bals)
  have sub: "is_tree s' (lnk_gt s x) r" "is_tree s' (lnk_lt s y) ll" "is_tree s' (lnk_gt s y) lr"
    using st ni by (auto intro!: frame_is_tree[OF fr])
  have t': "is_tree s' y (Node ll y (Node lr x r))"
    using sub lk ne by (simp add: links)
  have bsub: "balanced s' r" "balanced s' ll" "balanced s' lr"
    using b(1) bs ni by (auto intro!: frame_balanced[OF fr])
  have ar: "bal s' x = int (height r) - int (height lr)" "bal s' x \<in> {- 1, 0, 1}"
    "bal s' y = int (height (Node lr x r)) - int (height ll)" "bal s' y \<in> {- 1, 0, 1}"
    using byv bhy hgt by (auto simp: bals(1,2))
  have b': "balanced s' (Node ll y (Node lr x r))"
    using bsub ar by simp
  have h: "height (Node ll y (Node lr x r)) = (if bal s y = 0 then height r + 3 else height r + 2)"
    using byv bhy hgt by auto
  have "bal s' y = 0 \<longleftrightarrow> bal s y \<noteq> 0"
    by (simp add: bals(2))
  then show ?thesis
    using r t' b' h other(2) fr by blast
qed

lemma balance_double_left:
  assumes nf: "no_faults s"
    and t: "is_tree s x (Node (Node ll y (Node lrl z lrr)) x r)"
    and d: "distinct (inorder (Node (Node ll y (Node lrl z lrr)) x r))"
    and b: "balanced s r" "balanced s (Node ll y (Node lrl z lrr))"
    and pos: "\<not> 0 < bal s x" and bhy: "0 < bal s y"
    and hgt: "height (Node ll y (Node lrl z lrr)) = height r + 2"
  shows "\<exists>s'. balance x s = (z, s') \<and> is_tree s' z (Node (Node ll y lrl) z (Node lrr x r))
           \<and> balanced s' (Node (Node ll y lrl) z (Node lrr x r)) \<and> root s' = root s
           \<and> height (Node (Node ll y lrl) z (Node lrr x r)) = height r + 2
           \<and> bal s' z = 0
           \<and> frame {x, y, z} s s'"
proof -
  from t have lk: "lnk_lt s x = y" "lnk_gt s y = z" "x \<noteq> null" "y \<noteq> null" "z \<noteq> null"
    and st: "is_tree s (lnk_gt s x) r" "is_tree s (lnk_lt s z) lrl" "is_tree s (lnk_gt s z) lrr"
      "is_tree s (lnk_lt s y) ll"
    by auto
  from d have ne: "x \<noteq> y" "x \<noteq> z" "y \<noteq> z" "z \<noteq> x" "y \<noteq> x" "z \<noteq> y"
    and ni: "x \<notin> set_tree r" "y \<notin> set_tree r" "z \<notin> set_tree r"
      "x \<notin> set_tree lrl" "y \<notin> set_tree lrl" "z \<notin> set_tree lrl"
      "x \<notin> set_tree lrr" "y \<notin> set_tree lrr" "z \<notin> set_tree lrr"
      "x \<notin> set_tree ll" "y \<notin> set_tree ll" "z \<notin> set_tree ll"
    by auto
  from b(2) have bz: "bal s z = int (height lrr) - int (height lrl)" "bal s z \<in> {-1, 0, 1}"
    and byv: "bal s y = int (height (Node lrl z lrr)) - int (height ll)" "bal s y \<in> {-1, 0, 1}"
    and bs: "balanced s lrl" "balanced s lrr" "balanced s ll"
    by auto
  have h: "height (Node (Node ll y lrl) z (Node lrr x r)) = height r + 2"
    using bz byv bhy hgt by auto
  define s' where "s' = snd (balance x s)"
  define s1 where "s1 = set_lt (set_gt (set_gt (set_lt s x (lnk_gt s z)) y (lnk_lt s z)) z x) z y"
  have eq: "balance x s =
    (z, (if bal s z \<noteq> 0 then
           set_bf (if bal s z < 0 then set_bf (set_bf s1 x 1) y 0
                   else set_bf (set_bf s1 y (- 1)) x 0) z 0
         else set_bf (set_bf s1 x 0) y 0))"
    using nf pos bhy lk(1,2) ne by (simp add: balance_def Let_def s1_def)
  have r: "balance x s = (z, s')"
    unfolding s'_def eq by simp
  have links: "lnk_gt s' = (lnk_gt s)(y := lnk_lt s z, z := x)"
    "lnk_lt s' = (lnk_lt s)(x := lnk_gt s z, z := y)"
    and other: "keyv s' = keyv s" "root s' = root s" "max_depth s' = max_depth s" "no_faults s'"
    unfolding s'_def eq s1_def using nf by simp_all
  have bals: "bal s' x = (if bal s z < 0 then 1 else 0)"
    "bal s' y = (if 0 < bal s z then - 1 else 0)" "bal s' z = 0"
    "\<And>a. a \<notin> {x, y, z} \<Longrightarrow> bal s' a = bal s a"
    unfolding s'_def eq s1_def using ne by simp_all
  have fr: "frame {x, y, z} s s'"
    using nf by (auto simp add: frame_def links other bals)
  have sub: "is_tree s' (lnk_gt s x) r" "is_tree s' (lnk_lt s z) lrl"
    "is_tree s' (lnk_gt s z) lrr" "is_tree s' (lnk_lt s y) ll"
    using st ni by (auto intro!: frame_is_tree[OF fr])
  have t': "is_tree s' z (Node (Node ll y lrl) z (Node lrr x r))"
    using sub lk ne by (simp add: links)
  have bsub: "balanced s' r" "balanced s' lrl" "balanced s' lrr" "balanced s' ll"
    using b(1) bs ni by (auto intro!: frame_balanced[OF fr])
  have ar: "bal s' x = int (height r) - int (height lrr)" "bal s' x \<in> {- 1, 0, 1}"
    "bal s' y = int (height lrl) - int (height ll)" "bal s' y \<in> {- 1, 0, 1}"
    "bal s' z = int (height (Node lrr x r)) - int (height (Node ll y lrl))"
    using bz byv bhy hgt by (auto simp: bals(1-3))
  have b': "balanced s' (Node (Node ll y lrl) z (Node lrr x r))"
    using bsub ar bals(3) by simp
  show ?thesis
    using r t' b' h other(2) bals(3) fr by blast
qed

lemma balance_correct:
  assumes nf: "no_faults s"
    and t: "is_tree s x (Node l x r)"
    and d: "distinct (inorder (Node l x r))"
    and b: "balanced s l" "balanced s r"
    and hv: "(0 < bal s x \<and> height r = height l + 2) \<or> (\<not> 0 < bal s x \<and> height l = height r + 2)"
  shows "\<exists>x' s' t'. balance x s = (x', s') \<and> is_tree s' x' t' \<and> balanced s' t'
           \<and> inorder t' = inorder (Node l x r) \<and> root s' = root s
           \<and> frame (set_tree (Node l x r)) s s'
           \<and> (if bal s (if 0 < bal s x then lnk_gt s x else lnk_lt s x) = 0
               then height t' = height (Node l x r) \<and> bal s' x' \<noteq> 0
               else height t' + 1 = height (Node l x r) \<and> bal s' x' = 0)"
  using hv
proof
  assume a: "0 < bal s x \<and> height r = height l + 2"
  then obtain rl y rr where r: "r = Node rl y rr"
    by (cases r) auto
  have ly: "lnk_gt s x = y"
    using t r by simp
  have hr: "height (Node rl y rr) = height l + 2"
    using a r by simp
  show ?thesis
  proof (cases "bal s y < 0")
    case True
    then obtain rll z rlr where rl: "rl = Node rll z rlr"
      using b(2) r by (cases rl) auto
    let ?t = "Node (Node l x rll) z (Node rlr y rr)"
    from balance_double_right[OF nf t[unfolded r rl] d[unfolded r rl] b(1) b(2)[unfolded r rl]
        conjunct1[OF a] True hr[unfolded rl]]
    obtain s' where s': "balance x s = (z, s')" "is_tree s' z ?t" "balanced s' ?t" "root s' = root s"
      "height ?t = height l + 2" "bal s' z = 0" "frame {x, y, z} s s'"
      by blast
    have 1: "frame (set_tree (Node l x r)) s s'"
      by (rule frame_mono[OF s'(7)]) (simp add: r rl)
    have 2: "inorder ?t = inorder (Node l x r)"
      by (simp add: r rl)
    have 3: "if bal s (if 0 < bal s x then lnk_gt s x else lnk_lt s x) = 0
       then height ?t = height (Node l x r) \<and> bal s' z \<noteq> 0
       else height ?t + 1 = height (Node l x r) \<and> bal s' z = 0"
      using True a ly s'(6) unfolding s'(5) by simp
    show ?thesis
      using s'(1-4) 1 2 3 by blast
  next
    case False
    let ?t = "Node (Node l x rl) y rr"
    have by0: "0 \<le> bal s y"
      using False by simp
    from balance_single_right[OF nf t[unfolded r] d[unfolded r] b(1) b(2)[unfolded r]
        conjunct1[OF a] by0 hr]
    obtain s' where s': "balance x s = (y, s')" "is_tree s' y ?t" "balanced s' ?t" "root s' = root s"
      "height ?t = (if bal s y = 0 then height l + 3 else height l + 2)"
      "bal s' y = 0 \<longleftrightarrow> bal s y \<noteq> 0" "frame {x, y} s s'"
      by blast
    have 1: "frame (set_tree (Node l x r)) s s'"
      by (rule frame_mono[OF s'(7)]) (simp add: r)
    have 2: "inorder ?t = inorder (Node l x r)"
      by (simp add: r)
    have 3: "if bal s (if 0 < bal s x then lnk_gt s x else lnk_lt s x) = 0
       then height ?t = height (Node l x r) \<and> bal s' y \<noteq> 0
       else height ?t + 1 = height (Node l x r) \<and> bal s' y = 0"
      using a ly s'(6) unfolding s'(5) by simp
    show ?thesis
      using s'(1-4) 1 2 3 by blast
  qed
next
  assume a: "\<not> 0 < bal s x \<and> height l = height r + 2"
  then obtain ll y lr where l: "l = Node ll y lr"
    by (cases l) auto
  have ly: "lnk_lt s x = y"
    using t l by simp
  have hl: "height (Node ll y lr) = height r + 2"
    using a l by simp
  show ?thesis
  proof (cases "0 < bal s y")
    case True
    then obtain lrl z lrr where lr: "lr = Node lrl z lrr"
      using b(1) l by (cases lr) auto
    let ?t = "Node (Node ll y lrl) z (Node lrr x r)"
    from balance_double_left[OF nf t[unfolded l lr] d[unfolded l lr] b(2) b(1)[unfolded l lr]
        conjunct1[OF a] True hl[unfolded lr]]
    obtain s' where s': "balance x s = (z, s')" "is_tree s' z ?t" "balanced s' ?t" "root s' = root s"
      "height ?t = height r + 2" "bal s' z = 0" "frame {x, y, z} s s'"
      by blast
    have 1: "frame (set_tree (Node l x r)) s s'"
      by (rule frame_mono[OF s'(7)]) (simp add: l lr)
    have 2: "inorder ?t = inorder (Node l x r)"
      by (simp add: l lr)
    have 3: "if bal s (if 0 < bal s x then lnk_gt s x else lnk_lt s x) = 0
       then height ?t = height (Node l x r) \<and> bal s' z \<noteq> 0
       else height ?t + 1 = height (Node l x r) \<and> bal s' z = 0"
      using True a ly s'(6) unfolding s'(5) by simp
    show ?thesis
      using s'(1-4) 1 2 3 by blast
  next
    case False
    let ?t = "Node ll y (Node lr x r)"
    have by0: "bal s y \<le> 0"
      using False by simp
    from balance_single_left[OF nf t[unfolded l] d[unfolded l] b(2) b(1)[unfolded l]
        conjunct1[OF a] by0 hl]
    obtain s' where s': "balance x s = (y, s')" "is_tree s' y ?t" "balanced s' ?t" "root s' = root s"
      "height ?t = (if bal s y = 0 then height r + 3 else height r + 2)"
      "bal s' y = 0 \<longleftrightarrow> bal s y \<noteq> 0" "frame {x, y} s s'"
      by blast
    have 1: "frame (set_tree (Node l x r)) s s'"
      by (rule frame_mono[OF s'(7)]) (simp add: l)
    have 2: "inorder ?t = inorder (Node l x r)"
      by (simp add: l)
    have 3: "if bal s (if 0 < bal s x then lnk_gt s x else lnk_lt s x) = 0
       then height ?t = height (Node l x r) \<and> bal s' y \<noteq> 0
       else height ?t + 1 = height (Node l x r) \<and> bal s' y = 0"
      using a ly s'(6) unfolding s'(5) by simp
    show ?thesis
      using s'(1-4) 1 2 3 by blast
  qed
qed

section \<open>Insertion\<close>

lemma mark_path_fields [simp]:
  "lnk_lt (mark_path s k t) = lnk_lt s"
  "lnk_gt (mark_path s k t) = lnk_gt s"
  "keyv (mark_path s k t) = keyv s"
  "root (mark_path s k t) = root s"
  "max_depth (mark_path s k t) = max_depth s"
  "no_faults (mark_path s k t) = no_faults s"
  by (induction t arbitrary: s; simp)+

lemma mark_path_bal_out: "a \<notin> set_tree t \<Longrightarrow> bal (mark_path s k t) a = bal s a"
  by (induction t arbitrary: s) auto

lemma mark_path_frame: "frame (set_tree t) s (mark_path s k t)"
  by (simp add: frame_def mark_path_bal_out)

lemma is_tree_mark_path [simp]: "is_tree (mark_path s k t) p u = is_tree s p u"
  by (rule is_tree_cong) simp

lemma branch_cmp_simps [simp]:
  "branch_cmp branch d <s 0 \<longleftrightarrow> \<not> branch d"
  by (simp add: branch_cmp_def)

lemma insert_walk_mark:
  assumes "no_faults s" and "is_tree s hh (tins (keyv s) h c)" and "h \<notin> set_tree c"
    and "k = keyv s h" and "k \<notin> keyv s ` set_tree c"
    and "bits_ok (keyv s) k c branch depth" and "depth + height c \<le> max_depth s"
  shows "insert_walk h branch unbal punbal udepth hh depth s
           = insert_rebalance h branch unbal punbal udepth (mark_path s k c)"
  using assms
proof (induction c arbitrary: hh depth s)
  case Leaf
  then show ?case
    by (subst insert_walk.simps) simp
next
  case (Node l x r)
  have hx: "hh = x" "h \<noteq> x" "k \<noteq> keyv s x"
    using Node.prems by (auto split: if_splits)
  have dm: "depth < max_depth s"
    using Node.prems(7) by simp
  show ?case
  proof (cases "k < keyv s x")
    case True
    let ?s = "set_bf s x (- 1)"
    have "insert_walk h branch unbal punbal udepth (lnk_lt s x) (depth + 1) ?s
           = insert_rebalance h branch unbal punbal udepth (mark_path ?s k l)"
      using Node.prems True by (intro Node.IH(1)) auto
    then show ?thesis
      using True hx dm Node.prems(1,4,6)
      by (subst insert_walk.simps) (simp add: Let_def)
  next
    case False
    let ?s = "set_bf s x 1"
    have "insert_walk h branch unbal punbal udepth (lnk_gt s x) (depth + 1) ?s
           = insert_rebalance h branch unbal punbal udepth (mark_path ?s k r)"
      using Node.prems False hx by (intro Node.IH(2)) auto
    then show ?thesis
      using False hx dm Node.prems(1,4,6)
      by (subst insert_walk.simps) (simp add: Let_def)
  qed
qed

lemma zero_path_cong:
  "(\<And>a. a \<in> set_tree t \<Longrightarrow> bf' a = bf a) \<Longrightarrow> zero_path bf' kf k t = zero_path bf kf k t"
  by (induction t) auto

lemma set_tree_tins [simp]: "set_tree (tins kf h t) = {h} \<union> set_tree t"
  by (induction t) auto

lemma distinct_tins:
  "distinct (inorder t) \<Longrightarrow> h \<notin> set_tree t \<Longrightarrow> distinct (inorder (tins kf h t))"
  by (induction t) auto

lemma mark_path_balanced:
  assumes "balanced s c" and "zero_path (bal s) (keyv s) k c" and "distinct (inorder c)"
    and "h \<notin> set_tree c" and "bal s h = 0" and "k = keyv s h"
  shows "balanced (mark_path s k c) (tins (keyv s) h c)
           \<and> height (tins (keyv s) h c) = height c + 1"
  using assms
proof (induction c arbitrary: s)
  case Leaf
  then show ?case by simp
next
  case (Node l x r)
  have x0: "bal s x = 0" and hx: "h \<noteq> x"
    and ni: "x \<notin> set_tree l" "x \<notin> set_tree r" "set_tree l \<inter> set_tree r = {}"
      "h \<notin> set_tree l" "h \<notin> set_tree r"
    and dl: "distinct (inorder l)" and dr: "distinct (inorder r)"
    and bl: "balanced s l" and br: "balanced s r" and eqh: "height r = height l"
    using Node.prems by auto
  show ?case
  proof (cases "k < keyv s x")
    case True
    let ?s = "set_bf s x (- 1)"
    have zp: "zero_path (bal ?s) (keyv ?s) k l"
      using Node.prems(2) True ni by (subst zero_path_cong[of l _ "bal s"]) auto
    have bl1: "balanced ?s l" and h0: "bal ?s h = 0" and kk: "k = keyv ?s h"
      using bl ni hx Node.prems(5,6) by simp_all
    have ih: "balanced (mark_path ?s k l) (tins (keyv s) h l)
        \<and> height (tins (keyv s) h l) = height l + 1"
      using Node.IH(1)[OF bl1 zp dl ni(4) h0 kk] by simp
    have bx: "bal (mark_path ?s k l) x = - 1"
      using ni by (simp add: mark_path_bal_out)
    have "balanced ?s r"
      using br ni by simp
    then have br': "balanced (mark_path ?s k l) r"
      using ni by (auto intro: frame_balanced[OF mark_path_frame])
    have "tins (keyv s) h (Node l x r) = Node (tins (keyv s) h l) x r"
      "mark_path s k (Node l x r) = mark_path ?s k l"
      using True Node.prems(6) by simp_all
    then show ?thesis
      using ih bx br' eqh by simp
  next
    case False
    let ?s = "set_bf s x 1"
    have zp: "zero_path (bal ?s) (keyv ?s) k r"
      using Node.prems(2) False ni by (subst zero_path_cong[of r _ "bal s"]) auto
    have br1: "balanced ?s r" and h0: "bal ?s h = 0" and kk: "k = keyv ?s h"
      using br ni hx Node.prems(5,6) by simp_all
    have ih: "balanced (mark_path ?s k r) (tins (keyv s) h r)
        \<and> height (tins (keyv s) h r) = height r + 1"
      using Node.IH(2)[OF br1 zp dr ni(5) h0 kk] by simp
    have bx: "bal (mark_path ?s k r) x = 1"
      using ni by (simp add: mark_path_bal_out)
    have "balanced ?s l"
      using bl ni by simp
    then have bl': "balanced (mark_path ?s k r) l"
      using ni by (auto intro: frame_balanced[OF mark_path_frame])
    have "tins (keyv s) h (Node l x r) = Node l x (tins (keyv s) h r)"
      "mark_path s k (Node l x r) = mark_path ?s k r"
      using False Node.prems(6) by simp_all
    then show ?thesis
      using ih bx bl' eqh by simp
  qed
qed

lemma mark_path_root_bal:
  "x \<notin> set_tree l \<Longrightarrow> x \<notin> set_tree r \<Longrightarrow> bal (mark_path s k (Node l x r)) x \<noteq> 0"
  by (simp add: mark_path_bal_out)

lemma attach_fields [simp]:
  "bal (attach s n k h) = bal s"
  "keyv (attach s n k h) = keyv s"
  "root (attach s n k h) = root s"
  "max_depth (attach s n k h) = max_depth s"
  "no_faults (attach s n k h) = no_faults s"
  "a \<noteq> n \<Longrightarrow> lnk_lt (attach s n k h) a = lnk_lt s a"
  "a \<noteq> n \<Longrightarrow> lnk_gt (attach s n k h) a = lnk_gt s a"
  by (simp_all add: attach_def)

lemma balanced_attach [simp]: "balanced (attach s n k h) t = balanced s t"
  by (rule balanced_cong) simp

lemma attach_frame: "frame {n} s (attach s n k h)"
  by (simp add: frame_def)

lemma last_node_in: "t \<noteq> Leaf \<Longrightarrow> last_node kf k t \<in> set_tree t"
  by (induction t) auto

lemma is_tree_attach:
  assumes "is_tree s hh c" and "c \<noteq> Leaf" and "h \<notin> set_tree c" and "h \<noteq> null"
    and "lnk_lt s h = null" and "lnk_gt s h = null" and "distinct (inorder c)"
    and "k = keyv s h"
  shows "is_tree (attach s (last_node (keyv s) k c) k h) hh (tins (keyv s) h c)"
  using assms
proof (induction c arbitrary: hh)
  case Leaf
  then show ?case by simp
next
  case (Node l x r)
  let ?n = "last_node (keyv s) k (Node l x r)"
  let ?s = "attach s ?n k h"
  have hx: "hh = x" "h \<noteq> x" "x \<noteq> null"
    and tl: "is_tree s (lnk_lt s x) l" and tr: "is_tree s (lnk_gt s x) r"
    and ni: "x \<notin> set_tree l" "x \<notin> set_tree r" "set_tree l \<inter> set_tree r = {}"
      "h \<notin> set_tree l" "h \<notin> set_tree r"
    and dl: "distinct (inorder l)" and dr: "distinct (inorder r)"
    using Node.prems by auto
  note fr = attach_frame[of ?n s k h]
  show ?case
  proof (cases "k < keyv s x")
    case True
    have te: "tins (keyv s) h (Node l x r) = Node (tins (keyv s) h l) x r"
      using True Node.prems(8) by simp
    show ?thesis
    proof (cases "l = Leaf")
      case Leaf: True
      then have n: "?n = x"
        using True by simp
      have "is_tree (set_lt s x h) (lnk_gt s x) r"
        using tr ni by simp
      then show ?thesis
        unfolding n te using True Leaf hx Node.prems(4-6) by (simp add: attach_def)
    next
      case False
      then have n: "?n = last_node (keyv s) k l"
        using True by simp
      have "?n \<in> set_tree l"
        unfolding n using False by (rule last_node_in)
      then have nr: "{?n} \<inter> set_tree r = {}" "x \<noteq> ?n"
        using ni by auto
      have 1: "is_tree ?s (lnk_lt s x) (tins (keyv s) h l)"
        unfolding n by (rule Node.IH(1)[OF tl False ni(4) Node.prems(4-6) dl Node.prems(8)])
      have 2: "is_tree ?s (lnk_gt s x) r"
        by (rule frame_is_tree[OF fr tr nr(1)])
      have 3: "lnk_lt ?s x = lnk_lt s x" "lnk_gt ?s x = lnk_gt s x"
        using nr(2) by simp_all
      show ?thesis
        unfolding te is_tree.simps 3 using hx 1 2 by blast
    qed
  next
    case kx: False
    have te: "tins (keyv s) h (Node l x r) = Node l x (tins (keyv s) h r)"
      using kx Node.prems(8) by simp
    show ?thesis
    proof (cases "r = Leaf")
      case Leaf: True
      then have n: "?n = x"
        using kx by simp
      have "is_tree (set_gt s x h) (lnk_lt s x) l"
        using tl ni by simp
      then show ?thesis
        unfolding n te using kx Leaf hx Node.prems(4-6) by (simp add: attach_def)
    next
      case False
      then have n: "?n = last_node (keyv s) k r"
        using kx by simp
      have "?n \<in> set_tree r"
        unfolding n using False by (rule last_node_in)
      then have nr: "{?n} \<inter> set_tree l = {}" "x \<noteq> ?n"
        using ni by auto
      have 1: "is_tree ?s (lnk_gt s x) (tins (keyv s) h r)"
        unfolding n by (rule Node.IH(2)[OF tr False ni(5) Node.prems(4-6) dr Node.prems(8)])
      have 2: "is_tree ?s (lnk_lt s x) l"
        by (rule frame_is_tree[OF fr tl nr(1)])
      have 3: "lnk_lt ?s x = lnk_lt s x" "lnk_gt ?s x = lnk_gt s x"
        using nr(2) by simp_all
      show ?thesis
        unfolding te is_tree.simps 3 using hx 1 2 by blast
    qed
  qed
qed

lemma cmp_n_n_simps:
  "cmp_n_n s h x = 0 \<longleftrightarrow> keyv s h = keyv s x"
  "cmp_n_n s h x <s 0 \<longleftrightarrow> keyv s h < keyv s x"
  "0 <s cmp_n_n s h x \<longleftrightarrow> keyv s x < keyv s h"
  by (simp_all add: cmp_n_n_def compare_node_node_def compare_key_node_def word_sless_alt)

lemma cmp_n_n_val:
  "keyv s h \<noteq> keyv s x \<Longrightarrow> cmp_n_n s h x = (if keyv s h < keyv s x then - 1 else 1)"
  by (simp add: cmp_n_n_def compare_node_node_def compare_key_node_def)

lemma insert_descend_dup:
  assumes "no_faults s" and "is_tree s hh t" and "ordered s t" and "x \<in> set_tree t"
    and "keyv s x = keyv s h" and "depth + height t \<le> max_depth s"
  shows "insert_descend h branch unbal punbal udepth hh parent depth s = Some (x, s)"
  using assms
proof (induction t arbitrary: hh parent depth branch unbal punbal udepth)
  case Leaf
  then show ?case by simp
next
  case (Node l y r)
  have hy: "hh = y" and tl: "is_tree s (lnk_lt s y) l" and tr: "is_tree s (lnk_gt s y) r"
    and ol: "ordered s l" and or: "ordered s r"
    and kl: "\<forall>a \<in> set_tree l. keyv s a < keyv s y"
    and kr: "\<forall>a \<in> set_tree r. keyv s y < keyv s a"
    and dm: "depth < max_depth s" "Suc depth + height l \<le> max_depth s"
      "Suc depth + height r \<le> max_depth s"
    using Node.prems by (simp_all add: ordered_node)
  consider "keyv s h = keyv s y" | "keyv s h < keyv s y" | "keyv s y < keyv s h"
    by linarith
  then show ?case
  proof cases
    case 1
    then have "x = y"
      using Node.prems(4,5) kl kr by auto
    then show ?thesis
      using 1 hy Node.prems(1) by (subst insert_descend.simps) (simp add: Let_def cmp_n_n_simps)
  next
    case 2
    then have xl: "x \<in> set_tree l"
      using Node.prems(4,5) kr by auto
    then have "lnk_lt s y \<noteq> null"
      using tl by (cases l) auto
    then show ?thesis
      using 2 hy dm Node.prems(1) Node.IH(1)[OF Node.prems(1) tl ol xl Node.prems(5) dm(2)]
      by (subst insert_descend.simps) (simp add: Let_def cmp_n_n_simps split: prod.splits)
  next
    case 3
    then have xr: "x \<in> set_tree r"
      using Node.prems(4,5) kl by auto
    then have "lnk_gt s y \<noteq> null"
      using tr by (cases r) auto
    then show ?thesis
      using 3 hy dm Node.prems(1) Node.IH(2)[OF Node.prems(1) tr or xr Node.prems(5) dm(3)]
      by (subst insert_descend.simps) (simp add: Let_def cmp_n_n_simps split: prod.splits)
  qed
qed

lemma insert_descend_zero:
  assumes "no_faults s" and "is_tree s hh t" and "t \<noteq> Leaf"
    and "k = keyv s h" and "k \<notin> keyv s ` set_tree t"
    and "zero_path (bal s) (keyv s) k t" and "depth + height t \<le> max_depth s"
  shows "insert_descend h branch unbal punbal udepth hh parent depth s
     = insert_attach h (path_bits (keyv s) k t branch depth) unbal punbal udepth
         (last_node (keyv s) k t)
         (if k < keyv s (last_node (keyv s) k t) then - 1 else 1) s"
  using assms
proof (induction t arbitrary: hh parent depth branch)
  case Leaf
  then show ?case by simp
next
  case (Node l y r)
  have hy: "hh = y" and tl: "is_tree s (lnk_lt s y) l" and tr: "is_tree s (lnk_gt s y) r"
    and y0: "bal s y = 0" and ky: "keyv s h \<noteq> keyv s y"
    and dm: "depth < max_depth s" "Suc depth + height l \<le> max_depth s"
      "Suc depth + height r \<le> max_depth s"
    and kl: "k \<notin> keyv s ` set_tree l" and kr: "k \<notin> keyv s ` set_tree r"
    using Node.prems by auto
  show ?case
  proof (cases "k < keyv s y")
    case True
    then have zl: "zero_path (bal s) (keyv s) k l"
      using Node.prems(6) by simp
    show ?thesis
    proof (cases "l = Leaf")
      case Leaf: True
      then have "lnk_lt s y = null"
        using tl by simp
      then show ?thesis
        using True Leaf hy y0 ky dm(1) Node.prems(1,4)
        by (subst insert_descend.simps) (simp add: Let_def cmp_n_n_simps cmp_n_n_val)
    next
      case False
      then have "lnk_lt s y \<noteq> null"
        using tl by (cases l) auto
      then show ?thesis
        using True False hy y0 ky dm(1) Node.prems(1,4)
          Node.IH(1)[OF Node.prems(1) tl False Node.prems(4) kl zl, of "Suc depth"] dm(2)
        by (subst insert_descend.simps) (simp add: Let_def cmp_n_n_simps)
    qed
  next
    case kx: False
    then have zr: "zero_path (bal s) (keyv s) k r"
      using Node.prems(6) by simp
    have gt: "keyv s y < k"
      using kx ky Node.prems(4) by simp
    show ?thesis
    proof (cases "r = Leaf")
      case Leaf: True
      then have "lnk_gt s y = null"
        using tr by simp
      then show ?thesis
        using kx gt Leaf hy y0 ky dm(1) Node.prems(1,4)
        by (subst insert_descend.simps) (simp add: Let_def cmp_n_n_simps cmp_n_n_val)
    next
      case False
      then have "lnk_gt s y \<noteq> null"
        using tr by (cases r) auto
      then show ?thesis
        using kx gt False hy y0 ky dm(1) Node.prems(1,4)
          Node.IH(2)[OF Node.prems(1) tr False Node.prems(4) kr zr, of "Suc depth"] dm(3)
        by (subst insert_descend.simps) (simp add: Let_def cmp_n_n_simps)
    qed
  qed
qed

lemma attach_cmp:
  "(if (if k < keyv s n then - 1 else (1::cint)) <s 0 then set_lt s n h else set_gt s n h)
     = attach s n k h"
  by (simp add: attach_def)

lemma path_bits_below: "i < depth \<Longrightarrow> path_bits kf k t branch depth i = branch i"
  by (induction t arbitrary: branch depth) auto

lemma bits_ok_path_bits: "bits_ok kf k t (path_bits kf k t branch depth) depth"
  by (induction t arbitrary: branch depth) (auto simp: path_bits_below)

lemma insert_rebalance_none [simp]:
  "insert_rebalance h branch null punbal udepth s = Some (h, s)"
  by (simp add: insert_rebalance_def null_def)

lemma insert_attach_root:
  assumes nf: "no_faults s" and t: "is_tree s (root s) T" and ne: "T \<noteq> Leaf"
    and b: "balanced s T" and d: "distinct (inorder T)"
    and hf: "h \<notin> set_tree T" "h \<noteq> null" "lnk_lt s h = null" "lnk_gt s h = null" "bal s h = 0"
    and k: "k = keyv s h" "k \<notin> keyv s ` set_tree T"
    and zp: "zero_path (bal s) (keyv s) k T"
    and bits: "bits_ok (keyv s) k T B 0" and dm: "height T \<le> max_depth s"
  shows "\<exists>s'. insert_attach h B null null 0 (last_node (keyv s) k T)
             (if k < keyv s (last_node (keyv s) k T) then - 1 else 1) s = Some (h, s')
           \<and> is_tree s' (root s') (tins (keyv s) h T) \<and> balanced s' (tins (keyv s) h T)
           \<and> height (tins (keyv s) h T) = height T + 1
           \<and> frame (set_tree T) s s'"
proof -
  let ?n = "last_node (keyv s) k T"
  let ?s1 = "attach s ?n k h"
  let ?s' = "mark_path ?s1 k T"
  have t1: "is_tree ?s1 (root s) (tins (keyv s) h T)"
    by (rule is_tree_attach[OF t ne hf(1-4) d k(1)])
  have rn: "root s \<noteq> null"
    using t ne by (cases T) auto
  have w: "insert_walk h B null null 0 (root s) 0 ?s1 = insert_rebalance h B null null 0 ?s'"
    by (rule insert_walk_mark) (use nf t1 hf k bits dm in simp_all)
  have r: "insert_attach h B null null 0 ?n (if k < keyv s ?n then - 1 else 1) s = Some (h, ?s')"
    using rn w by (simp add: insert_attach_def Let_def attach_cmp)
  have bm: "balanced ?s' (tins (keyv s) h T) \<and> height (tins (keyv s) h T) = height T + 1"
    using mark_path_balanced[of ?s1 T k h] b zp d hf k by simp
  have "frame ({?n} \<union> set_tree T) s ?s'"
    by (rule frame_trans[OF attach_frame mark_path_frame])
  moreover have "?n \<in> set_tree T"
    by (rule last_node_in[OF ne])
  ultimately have fr: "frame (set_tree T) s ?s'"
    by (auto intro: frame_mono)
  show ?thesis
    using r t1 bm fr by (intro exI[of _ ?s']) simp
qed

lemma ins_okI:
  assumes "is_tree s' r' t'" and "balanced s' t'"
    and "inorder t' = inorder (tins (keyv s) h t)" and "height t' = height t"
    and "frame ({h, p} \<union> set_tree t) s s'"
    and "if p = null then root s' = r'
            else root s' = root s \<and> bal s' p = bal s p
              \<and> (if dir then lnk_gt s' p = r' \<and> lnk_lt s' p = lnk_lt s p
                  else lnk_lt s' p = r' \<and> lnk_gt s' p = lnk_gt s p)"
  shows "ins_ok s s' h t p dir"
  unfolding ins_ok_def using assms by blast

lemma frame_outside:
  "frame A s s' \<Longrightarrow> a \<notin> A \<Longrightarrow> lnk_lt s' a = lnk_lt s a \<and> lnk_gt s' a = lnk_gt s a \<and> bal s' a = bal s a"
  by (simp add: frame_def)

lemma frame_no_faults: "frame A s s' \<Longrightarrow> no_faults s \<Longrightarrow> no_faults s'"
  by (simp add: frame_def)

lemma insert_attach_unbal_gt:
  assumes nf: "no_faults s" and t: "is_tree s x (Node l x r)"
    and b: "balanced s (Node l x r)" and d: "distinct (inorder (Node l x r))"
    and hf: "h \<notin> set_tree (Node l x r)" "h \<noteq> null" "lnk_lt s h = null" "lnk_gt s h = null"
      "bal s h = 0"
    and k: "k = keyv s h" "k \<notin> keyv s ` set_tree (Node l x r)" and gt: "keyv s x < k"
    and nz: "bal s x \<noteq> 0" and zp: "zero_path (bal s) (keyv s) k r"
    and bits: "bits_ok (keyv s) k (Node l x r) B depth"
    and dm: "depth + height (Node l x r) \<le> max_depth s"
    and p: "p \<notin> set_tree (Node l x r)" "p \<noteq> h"
      "p \<noteq> null \<longrightarrow> 0 < depth \<and> (if B (depth - 1) then lnk_gt s p = x else lnk_lt s p = x)"
      "p = null \<longrightarrow> root s = x"
  shows "\<exists>s'. insert_attach h B x p depth (last_node (keyv s) k (Node l x r))
             (if k < keyv s (last_node (keyv s) k (Node l x r)) then - 1 else 1) s = Some (h, s')
           \<and> ins_ok s s' h (Node l x r) p (B (depth - 1))"
proof -
  let ?T = "Node l x r"
  define n where "n = last_node (keyv s) k ?T"
  define s1 where "s1 = attach s n k h"
  have s1f [simp]: "bal s1 = bal s" "keyv s1 = keyv s" "root s1 = root s"
    "max_depth s1 = max_depth s" "no_faults s1 = no_faults s"
    "\<And>t. balanced s1 t = balanced s t"
    by (simp_all add: s1_def)
  have xn: "x \<noteq> null" "h \<noteq> x" and ni: "x \<notin> set_tree l" "x \<notin> set_tree r"
    "set_tree l \<inter> set_tree r = {}" "h \<notin> set_tree l" "h \<notin> set_tree r"
    and dr: "distinct (inorder r)"
    and bl: "balanced s l" and br: "balanced s r"
    and bx: "bal s x = int (height r) - int (height l)" "bal s x \<in> {- 1, 0, 1}"
    and kr: "k \<notin> keyv s ` set_tree r"
    using t b d hf k by auto
  have nin: "n \<in> set_tree ?T"
    unfolding n_def by (rule last_node_in) simp
  have te: "tins (keyv s) h ?T = Node l x (tins (keyv s) h r)"
    using gt k(1) by simp
  have t1: "is_tree s1 x (Node l x (tins (keyv s) h r))"
    using is_tree_attach[OF t _ hf(1-4) d k(1)] unfolding te s1_def n_def by simp
  define hh where "hh = lnk_gt s1 x"
  have thh: "is_tree s1 hh (tins (keyv s) h r)" and tl1: "is_tree s1 (lnk_lt s1 x) l"
    using t1 unfolding hh_def by simp_all
  have hhn: "hh \<noteq> null"
    using thh by (cases r) (auto split: if_splits)
  have bd: "B depth" and bitsr: "bits_ok (keyv s) k r B (depth + 1)"
    using bits gt by auto
  have dmx: "depth < max_depth s" "depth + 1 + height r \<le> max_depth s"
    using dm by auto
  have fr1: "frame (set_tree ?T) s s1"
    unfolding s1_def by (rule frame_mono[OF attach_frame]) (use nin in blast)
  have pout: "p \<notin> set_tree ?T" "p \<notin> {h, x} \<union> set_tree r \<or> True"
    using p by auto
  consider (A) "bal s x = - 1" | (B) "bal s x = 1"
    using nz bx(2) by auto
  then show ?thesis
  proof cases
    case A
    let ?s2 = "set_bf s1 x 0"
    let ?s' = "mark_path ?s2 k r"
    have w: "insert_walk h B null p depth hh (depth + 1) ?s2
               = insert_rebalance h B null p depth ?s'"
      by (rule insert_walk_mark) (use nf thh ni k kr bitsr dmx in simp_all)
    have r: "insert_attach h B x p depth n (if k < keyv s n then - 1 else 1) s = Some (h, ?s')"
      using xn(1) dmx(1) bd nf A hhn w
      by (simp add: insert_attach_def Let_def attach_cmp hh_def flip: s1_def n_def)
    have zp2: "zero_path (bal ?s2) (keyv ?s2) k r"
      using zp ni by (subst zero_path_cong[of r _ "bal s"]) auto
    have bm: "balanced ?s' (tins (keyv s) h r) \<and> height (tins (keyv s) h r) = height r + 1"
      using mark_path_balanced[OF _ zp2 dr ni(5)] br ni xn hf(5) k(1) by simp
    have fr2: "frame (set_tree r) ?s2 ?s'"
      by (rule mark_path_frame)
    have "balanced ?s2 l"
      using bl ni by simp
    then have bl': "balanced ?s' l"
      by (rule frame_balanced[OF fr2]) (use ni in blast)
    have bx': "bal ?s' x = 0"
      using ni by (simp add: mark_path_bal_out)
    have t': "is_tree ?s' x (Node l x (tins (keyv s) h r))"
      using t1 by simp
    have b': "balanced ?s' (Node l x (tins (keyv s) h r))"
      using bm bl' bx' A bx(1) by simp
    have h': "height (Node l x (tins (keyv s) h r)) = height ?T"
      using bm A bx(1) by simp
    have f12: "frame {x} s1 ?s2"
      by (simp add: frame_def)
    have fall: "frame (set_tree ?T \<union> {x} \<union> set_tree r) s ?s'"
      by (rule frame_trans[OF frame_trans[OF fr1 f12] fr2])
    then have fr: "frame ({h, p} \<union> set_tree ?T) s ?s'"
      by (rule frame_mono) auto
    have pc: "if p = null then root ?s' = x
            else root ?s' = root s \<and> bal ?s' p = bal s p
              \<and> (if B (depth - 1) then lnk_gt ?s' p = x \<and> lnk_lt ?s' p = lnk_lt s p
                  else lnk_lt ?s' p = x \<and> lnk_gt ?s' p = lnk_gt s p)"
      using p frame_outside[OF fall, of p]
      by auto
    have "ins_ok s ?s' h ?T p (B (depth - 1))"
      by (rule ins_okI[OF t' b' _ h' fr pc]) (simp only: te)
    then show ?thesis
      using r[unfolded n_def] by blast
  next
    case B
    let ?s3 = "mark_path s1 k r"
    let ?T1 = "Node l x (tins (keyv s) h r)"
    have w: "insert_walk h B x p depth hh (depth + 1) s1
               = insert_rebalance h B x p depth ?s3"
      by (rule insert_walk_mark) (use nf thh ni k kr bitsr dmx in simp_all)
    have r: "insert_attach h B x p depth n (if k < keyv s n then - 1 else 1) s
               = insert_rebalance h B x p depth ?s3"
      using xn(1) dmx(1) bd nf B hhn w
      by (simp add: insert_attach_def Let_def attach_cmp hh_def flip: s1_def n_def)
    have zp1: "zero_path (bal s1) (keyv s1) k r"
      using zp by simp
    have bm: "balanced ?s3 (tins (keyv s) h r) \<and> height (tins (keyv s) h r) = height r + 1"
      using mark_path_balanced[OF _ zp1 dr ni(5)] br hf(5) k(1) by simp
    have fr2: "frame (set_tree r) s1 ?s3"
      by (rule mark_path_frame)
    have bl3: "balanced ?s3 l"
      by (rule frame_balanced[OF fr2]) (use bl ni in auto)
    have bx3: "bal ?s3 x = 1"
      using ni B by (simp add: mark_path_bal_out)
    have t3: "is_tree ?s3 x ?T1"
      using t1 by simp
    have d3: "distinct (inorder ?T1)"
      using distinct_tins[OF d hf(1), of "keyv s"] unfolding te .
    have nf3: "no_faults ?s3"
      using nf by simp
    have hv: "(0 < bal ?s3 x \<and> height (tins (keyv s) h r) = height l + 2)
        \<or> (\<not> 0 < bal ?s3 x \<and> height l = height (tins (keyv s) h r) + 2)"
      using bx3 bm B bx(1) by simp
    obtain rl y rr where r_node: "r = Node rl y rr"
      using B bx(1) by (cases r) auto
    have yni: "y \<notin> set_tree rl" "y \<notin> set_tree rr"
      using dr r_node by auto
    have deep: "lnk_gt ?s3 x = y"
      using t3 r_node by (simp split: if_splits)
    have dy: "bal ?s3 y \<noteq> 0"
      using mark_path_root_bal[OF yni, of s1 k] unfolding r_node .
    have deepnz: "bal ?s3 (if 0 < bal ?s3 x then lnk_gt ?s3 x else lnk_lt ?s3 x) \<noteq> 0"
      using bx3 deep dy by simp
    from balance_correct[OF nf3 t3 d3 bl3 conjunct1[OF bm] hv]
    obtain x' s4 t4 where raw: "balance x ?s3 = (x', s4)" "is_tree s4 x' t4" "balanced s4 t4"
      "inorder t4 = inorder ?T1" "root s4 = root ?s3" "frame (set_tree ?T1) ?s3 s4"
      "if bal ?s3 (if 0 < bal ?s3 x then lnk_gt ?s3 x else lnk_lt ?s3 x) = 0
               then height t4 = height ?T1 \<and> bal s4 x' \<noteq> 0
               else height t4 + 1 = height ?T1 \<and> bal s4 x' = 0"
      by blast
    have s47: "height t4 + 1 = height ?T1"
      using raw(7) deepnz by (simp only: if_False)
    note s4 = raw(1-6) s47
    have nf4: "no_faults s4"
      using frame_no_faults[OF s4(6) nf3] .
    have h4: "height t4 = height ?T"
      using s4(7) bm B bx(1) by simp
    have "set (inorder t4) = set (inorder ?T1)"
      by (simp only: s4(4))
    then have st4: "set_tree t4 = {h} \<union> set_tree ?T"
      by auto
    then have pn4: "p \<notin> set_tree t4"
      using p by auto
    have "frame (set_tree ?T \<union> set_tree r \<union> set_tree ?T1) s s4"
      by (rule frame_trans[OF frame_trans[OF fr1 fr2] s4(6)])
    then have fr4: "frame ({h} \<union> set_tree ?T) s s4"
      by (rule frame_mono) auto
    note po = frame_outside[OF fr4, of p]
    show ?thesis
    proof (cases "p = null")
      case True
      let ?s' = "s4\<lparr>root := x'\<rparr>"
      have r': "insert_attach h B x p depth n (if k < keyv s n then - 1 else 1) s = Some (h, ?s')"
        unfolding r using True xn(1) s4(1) nf4 by (simp add: insert_rebalance_def)
      have fr: "frame ({h, p} \<union> set_tree ?T) s ?s'"
        using fr4 by (auto simp: frame_def)
      have t': "is_tree ?s' x' t4" and b': "balanced ?s' t4"
        using s4(2,3) by simp_all
      have pc: "if p = null then root ?s' = x'
            else root ?s' = root s \<and> bal ?s' p = bal s p
              \<and> (if B (depth - 1) then lnk_gt ?s' p = x' \<and> lnk_lt ?s' p = lnk_lt s p
                  else lnk_lt ?s' p = x' \<and> lnk_gt ?s' p = lnk_gt s p)"
        using True by simp
      have "ins_ok s ?s' h ?T p (B (depth - 1))"
        by (rule ins_okI[OF t' b' _ h4 fr pc]) (simp only: s4(4) te)
      then show ?thesis
        using r'[unfolded n_def] by blast
    next
      case False
      then have dp: "0 < depth" "depth - 1 < max_depth s4"
        using p(3) dmx(1) s4(6) fr2 by (auto simp: frame_def)
      let ?s' = "if B (depth - 1) then set_gt s4 p x' else set_lt s4 p x'"
      have r': "insert_attach h B x p depth n (if k < keyv s n then - 1 else 1) s = Some (h, ?s')"
        unfolding r using False xn(1) s4(1) nf4 dp by (simp add: insert_rebalance_def)
      have fr: "frame ({h, p} \<union> set_tree ?T) s ?s'"
        using fr4 by (auto simp: frame_def)
      have t': "is_tree ?s' x' t4" and b': "balanced ?s' t4"
        using s4(2,3) pn4 by simp_all
      have pc: "if p = null then root ?s' = x'
            else root ?s' = root s \<and> bal ?s' p = bal s p
              \<and> (if B (depth - 1) then lnk_gt ?s' p = x' \<and> lnk_lt ?s' p = lnk_lt s p
                  else lnk_lt ?s' p = x' \<and> lnk_gt ?s' p = lnk_gt s p)"
        using False po p(1,2) s4(5) by auto
      have "ins_ok s ?s' h ?T p (B (depth - 1))"
        by (rule ins_okI[OF t' b' _ h4 fr pc]) (simp only: s4(4) te)
      then show ?thesis
        using r'[unfolded n_def] by blast
    qed
  qed
qed

lemma insert_attach_unbal_lt:
  assumes nf: "no_faults s" and t: "is_tree s x (Node l x r)"
    and b: "balanced s (Node l x r)" and d: "distinct (inorder (Node l x r))"
    and hf: "h \<notin> set_tree (Node l x r)" "h \<noteq> null" "lnk_lt s h = null" "lnk_gt s h = null"
      "bal s h = 0"
    and k: "k = keyv s h" "k \<notin> keyv s ` set_tree (Node l x r)" and lt: "k < keyv s x"
    and nz: "bal s x \<noteq> 0" and zp: "zero_path (bal s) (keyv s) k l"
    and bits: "bits_ok (keyv s) k (Node l x r) B depth"
    and dm: "depth + height (Node l x r) \<le> max_depth s"
    and p: "p \<notin> set_tree (Node l x r)" "p \<noteq> h"
      "p \<noteq> null \<longrightarrow> 0 < depth \<and> (if B (depth - 1) then lnk_gt s p = x else lnk_lt s p = x)"
      "p = null \<longrightarrow> root s = x"
  shows "\<exists>s'. insert_attach h B x p depth (last_node (keyv s) k (Node l x r))
             (if k < keyv s (last_node (keyv s) k (Node l x r)) then - 1 else 1) s = Some (h, s')
           \<and> ins_ok s s' h (Node l x r) p (B (depth - 1))"
proof -
  let ?T = "Node l x r"
  define n where "n = last_node (keyv s) k ?T"
  define s1 where "s1 = attach s n k h"
  have s1f [simp]: "bal s1 = bal s" "keyv s1 = keyv s" "root s1 = root s"
    "max_depth s1 = max_depth s" "no_faults s1 = no_faults s"
    "\<And>t. balanced s1 t = balanced s t"
    by (simp_all add: s1_def)
  have xn: "x \<noteq> null" "h \<noteq> x" and ni: "x \<notin> set_tree l" "x \<notin> set_tree r"
    "set_tree l \<inter> set_tree r = {}" "h \<notin> set_tree l" "h \<notin> set_tree r"
    and dl: "distinct (inorder l)"
    and bl: "balanced s l" and br: "balanced s r"
    and bx: "bal s x = int (height r) - int (height l)" "bal s x \<in> {- 1, 0, 1}"
    and kl: "k \<notin> keyv s ` set_tree l"
    using t b d hf k by auto
  have nin: "n \<in> set_tree ?T"
    unfolding n_def by (rule last_node_in) simp
  have te: "tins (keyv s) h ?T = Node (tins (keyv s) h l) x r"
    using lt k(1) by simp
  have t1: "is_tree s1 x (Node (tins (keyv s) h l) x r)"
    using is_tree_attach[OF t _ hf(1-4) d k(1)] unfolding te s1_def n_def by simp
  define hh where "hh = lnk_lt s1 x"
  have thh: "is_tree s1 hh (tins (keyv s) h l)" and tr1: "is_tree s1 (lnk_gt s1 x) r"
    using t1 unfolding hh_def by simp_all
  have hhn: "hh \<noteq> null"
    using thh by (cases l) (auto split: if_splits)
  have bd: "\<not> B depth" and bitsl: "bits_ok (keyv s) k l B (depth + 1)"
    using bits lt by auto
  have dmx: "depth < max_depth s" "depth + 1 + height l \<le> max_depth s"
    using dm by auto
  have fr1: "frame (set_tree ?T) s s1"
    unfolding s1_def by (rule frame_mono[OF attach_frame]) (use nin in blast)
    consider (A) "bal s x = 1" | (B) "bal s x = - 1"
    using nz bx(2) by auto
  then show ?thesis
  proof cases
    case A
    let ?s2 = "set_bf s1 x 0"
    let ?s' = "mark_path ?s2 k l"
    have w: "insert_walk h B null p depth hh (depth + 1) ?s2
               = insert_rebalance h B null p depth ?s'"
      by (rule insert_walk_mark) (use nf thh ni k kl bitsl dmx in simp_all)
    have r: "insert_attach h B x p depth n (if k < keyv s n then - 1 else 1) s = Some (h, ?s')"
      using xn(1) dmx(1) bd nf A hhn w
      by (simp add: insert_attach_def Let_def attach_cmp hh_def flip: s1_def n_def)
    have zp2: "zero_path (bal ?s2) (keyv ?s2) k l"
      using zp ni by (subst zero_path_cong[of l _ "bal s"]) auto
    have bm: "balanced ?s' (tins (keyv s) h l) \<and> height (tins (keyv s) h l) = height l + 1"
      using mark_path_balanced[OF _ zp2 dl ni(4)] bl ni xn hf(5) k(1) by simp
    have fr2: "frame (set_tree l) ?s2 ?s'"
      by (rule mark_path_frame)
    have "balanced ?s2 r"
      using br ni by simp
    then have br': "balanced ?s' r"
      by (rule frame_balanced[OF fr2]) (use ni in blast)
    have bx': "bal ?s' x = 0"
      using ni by (simp add: mark_path_bal_out)
    have t': "is_tree ?s' x (Node (tins (keyv s) h l) x r)"
      using t1 by simp
    have b': "balanced ?s' (Node (tins (keyv s) h l) x r)"
      using bm br' bx' A bx(1) by simp
    have h': "height (Node (tins (keyv s) h l) x r) = height ?T"
      using bm A bx(1) by simp
    have f12: "frame {x} s1 ?s2"
      by (simp add: frame_def)
    have fall: "frame (set_tree ?T \<union> {x} \<union> set_tree l) s ?s'"
      by (rule frame_trans[OF frame_trans[OF fr1 f12] fr2])
    then have fr: "frame ({h, p} \<union> set_tree ?T) s ?s'"
      by (rule frame_mono) auto
    have pc: "if p = null then root ?s' = x
            else root ?s' = root s \<and> bal ?s' p = bal s p
              \<and> (if B (depth - 1) then lnk_gt ?s' p = x \<and> lnk_lt ?s' p = lnk_lt s p
                  else lnk_lt ?s' p = x \<and> lnk_gt ?s' p = lnk_gt s p)"
      using p frame_outside[OF fall, of p]
      by auto
    have "ins_ok s ?s' h ?T p (B (depth - 1))"
      by (rule ins_okI[OF t' b' _ h' fr pc]) (simp only: te)
    then show ?thesis
      using r[unfolded n_def] by blast
  next
    case B
    let ?s3 = "mark_path s1 k l"
    let ?T1 = "Node (tins (keyv s) h l) x r"
    have w: "insert_walk h B x p depth hh (depth + 1) s1
               = insert_rebalance h B x p depth ?s3"
      by (rule insert_walk_mark) (use nf thh ni k kl bitsl dmx in simp_all)
    have r: "insert_attach h B x p depth n (if k < keyv s n then - 1 else 1) s
               = insert_rebalance h B x p depth ?s3"
      using xn(1) dmx(1) bd nf B hhn w
      by (simp add: insert_attach_def Let_def attach_cmp hh_def flip: s1_def n_def)
    have zp1: "zero_path (bal s1) (keyv s1) k l"
      using zp by simp
    have bm: "balanced ?s3 (tins (keyv s) h l) \<and> height (tins (keyv s) h l) = height l + 1"
      using mark_path_balanced[OF _ zp1 dl ni(4)] bl hf(5) k(1) by simp
    have fr2: "frame (set_tree l) s1 ?s3"
      by (rule mark_path_frame)
    have br3: "balanced ?s3 r"
      by (rule frame_balanced[OF fr2]) (use br ni in auto)
    have bx3: "bal ?s3 x = - 1"
      using ni B by (simp add: mark_path_bal_out)
    have t3: "is_tree ?s3 x ?T1"
      using t1 by simp
    have d3: "distinct (inorder ?T1)"
      using distinct_tins[OF d hf(1), of "keyv s"] unfolding te .
    have nf3: "no_faults ?s3"
      using nf by simp
    have hv: "(0 < bal ?s3 x \<and> height r = height (tins (keyv s) h l) + 2)
        \<or> (\<not> 0 < bal ?s3 x \<and> height (tins (keyv s) h l) = height r + 2)"
      using bx3 bm B bx(1) by simp
    obtain rl y rr where r_node: "l = Node rl y rr"
      using B bx(1) by (cases l) auto
    have yni: "y \<notin> set_tree rl" "y \<notin> set_tree rr"
      using dl r_node by auto
    have deep: "lnk_lt ?s3 x = y"
      using t3 r_node by (simp split: if_splits)
    have dy: "bal ?s3 y \<noteq> 0"
      using mark_path_root_bal[OF yni, of s1 k] unfolding r_node .
    have deepnz: "bal ?s3 (if 0 < bal ?s3 x then lnk_gt ?s3 x else lnk_lt ?s3 x) \<noteq> 0"
      using bx3 deep dy by simp
    from balance_correct[OF nf3 t3 d3 conjunct1[OF bm] br3 hv]
    obtain x' s4 t4 where raw: "balance x ?s3 = (x', s4)" "is_tree s4 x' t4" "balanced s4 t4"
      "inorder t4 = inorder ?T1" "root s4 = root ?s3" "frame (set_tree ?T1) ?s3 s4"
      "if bal ?s3 (if 0 < bal ?s3 x then lnk_gt ?s3 x else lnk_lt ?s3 x) = 0
               then height t4 = height ?T1 \<and> bal s4 x' \<noteq> 0
               else height t4 + 1 = height ?T1 \<and> bal s4 x' = 0"
      by blast
    have s47: "height t4 + 1 = height ?T1"
      using raw(7) deepnz by (simp only: if_False)
    note s4 = raw(1-6) s47
    have nf4: "no_faults s4"
      using frame_no_faults[OF s4(6) nf3] .
    have h4: "height t4 = height ?T"
      using s4(7) bm B bx(1) by simp
    have "set (inorder t4) = set (inorder ?T1)"
      by (simp only: s4(4))
    then have st4: "set_tree t4 = {h} \<union> set_tree ?T"
      by auto
    then have pn4: "p \<notin> set_tree t4"
      using p by auto
    have "frame (set_tree ?T \<union> set_tree l \<union> set_tree ?T1) s s4"
      by (rule frame_trans[OF frame_trans[OF fr1 fr2] s4(6)])
    then have fr4: "frame ({h} \<union> set_tree ?T) s s4"
      by (rule frame_mono) auto
    note po = frame_outside[OF fr4, of p]
    show ?thesis
    proof (cases "p = null")
      case True
      let ?s' = "s4\<lparr>root := x'\<rparr>"
      have r': "insert_attach h B x p depth n (if k < keyv s n then - 1 else 1) s = Some (h, ?s')"
        unfolding r using True xn(1) s4(1) nf4 by (simp add: insert_rebalance_def)
      have fr: "frame ({h, p} \<union> set_tree ?T) s ?s'"
        using fr4 by (auto simp: frame_def)
      have t': "is_tree ?s' x' t4" and b': "balanced ?s' t4"
        using s4(2,3) by simp_all
      have pc: "if p = null then root ?s' = x'
            else root ?s' = root s \<and> bal ?s' p = bal s p
              \<and> (if B (depth - 1) then lnk_gt ?s' p = x' \<and> lnk_lt ?s' p = lnk_lt s p
                  else lnk_lt ?s' p = x' \<and> lnk_gt ?s' p = lnk_gt s p)"
        using True by simp
      have "ins_ok s ?s' h ?T p (B (depth - 1))"
        by (rule ins_okI[OF t' b' _ h4 fr pc]) (simp only: s4(4) te)
      then show ?thesis
        using r'[unfolded n_def] by blast
    next
      case False
      then have dp: "0 < depth" "depth - 1 < max_depth s4"
        using p(3) dmx(1) s4(6) fr2 by (auto simp: frame_def)
      let ?s' = "if B (depth - 1) then set_gt s4 p x' else set_lt s4 p x'"
      have r': "insert_attach h B x p depth n (if k < keyv s n then - 1 else 1) s = Some (h, ?s')"
        unfolding r using False xn(1) s4(1) nf4 dp by (simp add: insert_rebalance_def)
      have fr: "frame ({h, p} \<union> set_tree ?T) s ?s'"
        using fr4 by (auto simp: frame_def)
      have t': "is_tree ?s' x' t4" and b': "balanced ?s' t4"
        using s4(2,3) pn4 by simp_all
      have pc: "if p = null then root ?s' = x'
            else root ?s' = root s \<and> bal ?s' p = bal s p
              \<and> (if B (depth - 1) then lnk_gt ?s' p = x' \<and> lnk_lt ?s' p = lnk_lt s p
                  else lnk_lt ?s' p = x' \<and> lnk_gt ?s' p = lnk_gt s p)"
        using False po p(1,2) s4(5) by auto
      have "ins_ok s ?s' h ?T p (B (depth - 1))"
        by (rule ins_okI[OF t' b' _ h4 fr pc]) (simp only: s4(4) te)
      then show ?thesis
        using r'[unfolded n_def] by blast
    qed
  qed
qed

lemma ins_ok_null_dir: "ins_ok s s' h t null d1 \<Longrightarrow> ins_ok s s' h t null d2"
  by (simp add: ins_ok_def)

lemma insert_descend_to_attach:
  assumes nf: "no_faults s" and t: "is_tree s x (Node l x r)"
    and k: "k = keyv s h" "k \<notin> keyv s ` set_tree (Node l x r)"
    and nz: "bal s x \<noteq> 0"
    and zp: "zero_path (bal s) (keyv s) k (if k < keyv s x then l else r)"
    and dm: "depth + height (Node l x r) \<le> max_depth s"
  shows "insert_descend h branch unbal punbal udepth x p depth s
     = insert_attach h (path_bits (keyv s) k (Node l x r) branch depth) x p depth
         (last_node (keyv s) k (Node l x r))
         (if k < keyv s (last_node (keyv s) k (Node l x r)) then - 1 else 1) s"
proof -
  have tl: "is_tree s (lnk_lt s x) l" and tr: "is_tree s (lnk_gt s x) r"
    and ky: "keyv s h \<noteq> keyv s x"
    and dmx: "depth < max_depth s" "Suc depth + height l \<le> max_depth s"
      "Suc depth + height r \<le> max_depth s"
    and kl: "k \<notin> keyv s ` set_tree l" and kr: "k \<notin> keyv s ` set_tree r"
    using t k dm by auto
  show ?thesis
  proof (cases "k < keyv s x")
    case True
    then have zl: "zero_path (bal s) (keyv s) k l"
      using zp by simp
    show ?thesis
    proof (cases "l = Leaf")
      case Leaf: True
      then have "lnk_lt s x = null"
        using tl by simp
      then show ?thesis
        using True Leaf nz ky dmx(1) nf k(1)
        by (subst insert_descend.simps) (simp add: Let_def cmp_n_n_simps cmp_n_n_val)
    next
      case False
      then have "lnk_lt s x \<noteq> null"
        using tl by (cases l) auto
      then show ?thesis
        using True False nz ky dmx(1) nf k(1)
          insert_descend_zero[OF nf tl False k(1) kl zl, of "Suc depth"] dmx(2)
        by (subst insert_descend.simps) (simp add: Let_def cmp_n_n_simps)
    qed
  next
    case kx: False
    then have zr: "zero_path (bal s) (keyv s) k r"
      using zp by simp
    have gt: "keyv s x < k"
      using kx ky k(1) by simp
    show ?thesis
    proof (cases "r = Leaf")
      case Leaf: True
      then have "lnk_gt s x = null"
        using tr by simp
      then show ?thesis
        using kx gt Leaf nz ky dmx(1) nf k(1)
        by (subst insert_descend.simps) (simp add: Let_def cmp_n_n_simps cmp_n_n_val)
    next
      case False
      then have "lnk_gt s x \<noteq> null"
        using tr by (cases r) auto
      then show ?thesis
        using kx gt False nz ky dmx(1) nf k(1)
          insert_descend_zero[OF nf tr False k(1) kr zr, of "Suc depth"] dmx(3)
        by (subst insert_descend.simps) (simp add: Let_def cmp_n_n_simps)
    qed
  qed
qed

lemma insert_at_unbal:
  assumes nf: "no_faults s" and t: "is_tree s x (Node l x r)"
    and b: "balanced s (Node l x r)" and d: "distinct (inorder (Node l x r))"
    and hf: "h \<notin> set_tree (Node l x r)" "h \<noteq> null" "lnk_lt s h = null" "lnk_gt s h = null"
      "bal s h = 0"
    and k: "k = keyv s h" "k \<notin> keyv s ` set_tree (Node l x r)"
    and nz: "bal s x \<noteq> 0"
    and zp: "zero_path (bal s) (keyv s) k (if k < keyv s x then l else r)"
    and dm: "depth + height (Node l x r) \<le> max_depth s"
    and p: "p \<notin> set_tree (Node l x r)" "p \<noteq> h"
      "p \<noteq> null \<longrightarrow> 0 < depth \<and> (if branch (depth - 1) then lnk_gt s p = x else lnk_lt s p = x)"
      "p = null \<longrightarrow> root s = x"
  shows "\<exists>s'. insert_descend h branch unbal punbal udepth x p depth s = Some (h, s')
           \<and> ins_ok s s' h (Node l x r) p (branch (depth - 1))"
proof -
  let ?T = "Node l x r"
  let ?B = "path_bits (keyv s) k ?T branch depth"
  have eq: "insert_descend h branch unbal punbal udepth x p depth s
     = insert_attach h ?B x p depth (last_node (keyv s) k ?T)
         (if k < keyv s (last_node (keyv s) k ?T) then - 1 else 1) s"
    by (rule insert_descend_to_attach[OF nf t k nz zp dm])
  have bits: "bits_ok (keyv s) k ?T ?B depth"
    by (rule bits_ok_path_bits)
  have Bp: "0 < depth \<Longrightarrow> ?B (depth - 1) = branch (depth - 1)"
    by (rule path_bits_below) simp
  have p3: "p \<noteq> null \<longrightarrow> 0 < depth \<and> (if ?B (depth - 1) then lnk_gt s p = x else lnk_lt s p = x)"
    using p(3) Bp by auto
  have kx: "k \<noteq> keyv s x"
    using k(2) by auto
  have "\<exists>s'. insert_attach h ?B x p depth (last_node (keyv s) k ?T)
             (if k < keyv s (last_node (keyv s) k ?T) then - 1 else 1) s = Some (h, s')
           \<and> ins_ok s s' h ?T p (?B (depth - 1))"
  proof (cases "k < keyv s x")
    case True
    then have zl: "zero_path (bal s) (keyv s) k l"
      using zp by simp
    show ?thesis
      by (rule insert_attach_unbal_lt[OF nf t b d hf k True nz zl bits dm p(1,2) p3 p(4)])
  next
    case False
    then have zr: "zero_path (bal s) (keyv s) k r" and gt: "keyv s x < k"
      using zp kx by simp_all
    show ?thesis
      by (rule insert_attach_unbal_gt[OF nf t b d hf k gt nz zr bits dm p(1,2) p3 p(4)])
  qed
  then obtain s' where s': "insert_attach h ?B x p depth (last_node (keyv s) k ?T)
             (if k < keyv s (last_node (keyv s) k ?T) then - 1 else 1) s = Some (h, s')"
    "ins_ok s s' h ?T p (?B (depth - 1))"
    by blast
  have "ins_ok s s' h ?T p (branch (depth - 1))"
  proof (cases "p = null")
    case True
    then show ?thesis
      using s'(2) ins_ok_null_dir by blast
  next
    case False
    then show ?thesis
      using s'(2) Bp p(3) by simp
  qed
  then show ?thesis
    using eq s'(1) by simp
qed

lemma ins_ok_lift_gt:
  assumes ok: "ins_ok s s' h r x True" and t: "is_tree s x (Node l x r)"
    and b: "balanced s (Node l x r)" and d: "distinct (inorder (Node l x r))"
    and hf: "h \<notin> set_tree (Node l x r)" and gt: "\<not> keyv s h < keyv s x"
    and p: "p \<notin> set_tree (Node l x r)" "p \<noteq> h"
      "p \<noteq> null \<longrightarrow> (if dir then lnk_gt s p = x else lnk_lt s p = x)"
      "p = null \<longrightarrow> root s = x"
  shows "ins_ok s s' h (Node l x r) p dir"
proof -
  have xn: "x \<noteq> null" and tl: "is_tree s (lnk_lt s x) l" and bl: "balanced s l"
    and bx: "bal s x = int (height r) - int (height l)" "bal s x \<in> {- 1, 0, 1}"
    and ni: "x \<notin> set_tree l" "h \<notin> set_tree l" "set_tree l \<inter> set_tree r = {}" "x \<noteq> h"
    using t b d hf by auto
  from ok xn obtain t' r' where o: "is_tree s' r' t'" "balanced s' t'"
    "inorder t' = inorder (tins (keyv s) h r)" "height t' = height r"
    "frame ({h, x} \<union> set_tree r) s s'" "root s' = root s" "bal s' x = bal s x"
    "lnk_gt s' x = r'" "lnk_lt s' x = lnk_lt s x"
    unfolding ins_ok_def by auto
  have tl': "is_tree s' (lnk_lt s x) l"
    by (rule frame_is_tree[OF o(5) tl]) (use ni in auto)
  have bl': "balanced s' l"
    by (rule frame_balanced[OF o(5) bl]) (use ni in auto)
  have 1: "is_tree s' x (Node l x t')"
    using xn tl' o(1,8,9) by simp
  have 2: "balanced s' (Node l x t')"
    using bl' o(2,4,7) bx by simp
  have 3: "inorder (Node l x t') = inorder (tins (keyv s) h (Node l x r))"
    using gt o(3) by simp
  have 4: "height (Node l x t') = height (Node l x r)"
    using o(4) by simp
  have 5: "frame ({h, p} \<union> set_tree (Node l x r)) s s'"
    by (rule frame_mono[OF o(5)]) auto
  have "p \<notin> {h, x} \<union> set_tree r"
    using p by auto
  note po = frame_outside[OF o(5) this]
  have 6: "if p = null then root s' = x
            else root s' = root s \<and> bal s' p = bal s p
              \<and> (if dir then lnk_gt s' p = x \<and> lnk_lt s' p = lnk_lt s p
                  else lnk_lt s' p = x \<and> lnk_gt s' p = lnk_gt s p)"
    using p(3,4) po o(6) by auto
  show ?thesis
    by (rule ins_okI[OF 1 2 3 4 5 6])
qed

lemma ins_ok_lift_lt:
  assumes ok: "ins_ok s s' h l x False" and t: "is_tree s x (Node l x r)"
    and b: "balanced s (Node l x r)" and d: "distinct (inorder (Node l x r))"
    and hf: "h \<notin> set_tree (Node l x r)" and lt: "keyv s h < keyv s x"
    and p: "p \<notin> set_tree (Node l x r)" "p \<noteq> h"
      "p \<noteq> null \<longrightarrow> (if dir then lnk_gt s p = x else lnk_lt s p = x)"
      "p = null \<longrightarrow> root s = x"
  shows "ins_ok s s' h (Node l x r) p dir"
proof -
  have xn: "x \<noteq> null" and tr: "is_tree s (lnk_gt s x) r" and br: "balanced s r"
    and bx: "bal s x = int (height r) - int (height l)" "bal s x \<in> {- 1, 0, 1}"
    and ni: "x \<notin> set_tree r" "h \<notin> set_tree r" "set_tree l \<inter> set_tree r = {}" "x \<noteq> h"
    using t b d hf by auto
  from ok xn obtain t' r' where o: "is_tree s' r' t'" "balanced s' t'"
    "inorder t' = inorder (tins (keyv s) h l)" "height t' = height l"
    "frame ({h, x} \<union> set_tree l) s s'" "root s' = root s" "bal s' x = bal s x"
    "lnk_lt s' x = r'" "lnk_gt s' x = lnk_gt s x"
    unfolding ins_ok_def by auto
  have tr': "is_tree s' (lnk_gt s x) r"
    by (rule frame_is_tree[OF o(5) tr]) (use ni in auto)
  have br': "balanced s' r"
    by (rule frame_balanced[OF o(5) br]) (use ni in auto)
  have 1: "is_tree s' x (Node t' x r)"
    using xn tr' o(1,8,9) by simp
  have 2: "balanced s' (Node t' x r)"
    using br' o(2,4,7) bx by simp
  have 3: "inorder (Node t' x r) = inorder (tins (keyv s) h (Node l x r))"
    using lt o(3) by simp
  have 4: "height (Node t' x r) = height (Node l x r)"
    using o(4) by simp
  have 5: "frame ({h, p} \<union> set_tree (Node l x r)) s s'"
    by (rule frame_mono[OF o(5)]) auto
  have "p \<notin> {h, x} \<union> set_tree l"
    using p by auto
  note po = frame_outside[OF o(5) this]
  have 6: "if p = null then root s' = x
            else root s' = root s \<and> bal s' p = bal s p
              \<and> (if dir then lnk_gt s' p = x \<and> lnk_lt s' p = lnk_lt s p
                  else lnk_lt s' p = x \<and> lnk_gt s' p = lnk_gt s p)"
    using p(3,4) po o(6) by auto
  show ?thesis
    by (rule ins_okI[OF 1 2 3 4 5 6])
qed

lemma insert_descend_unbal:
  assumes "no_faults s" and "is_tree s hh T" and "balanced s T" and "distinct (inorder T)"
    and "h \<notin> set_tree T" and "h \<noteq> null" and "lnk_lt s h = null" and "lnk_gt s h = null"
    and "bal s h = 0" and "k = keyv s h" and "k \<notin> keyv s ` set_tree T"
    and "\<not> zero_path (bal s) (keyv s) k T" and "depth + height T \<le> max_depth s"
    and "p \<notin> set_tree T" and "p \<noteq> h"
    and "p \<noteq> null \<longrightarrow> 0 < depth \<and> (if branch (depth - 1) then lnk_gt s p = hh else lnk_lt s p = hh)"
    and "p = null \<longrightarrow> root s = hh"
  shows "\<exists>s'. insert_descend h branch unbal punbal udepth hh p depth s = Some (h, s')
           \<and> ins_ok s s' h T p (branch (depth - 1))"
  using assms
proof (induction T arbitrary: hh p depth branch unbal punbal udepth)
  case Leaf
  then show ?case by simp
next
  case (Node l x r)
  note nf = Node.prems(1)
  have hx: "hh = x" and t: "is_tree s x (Node l x r)"
    using Node.prems(2) by simp_all
  have xn: "x \<noteq> null" "x \<noteq> h" and tl: "is_tree s (lnk_lt s x) l" and tr: "is_tree s (lnk_gt s x) r"
    and bl: "balanced s l" and br: "balanced s r"
    and dl: "distinct (inorder l)" and dr: "distinct (inorder r)"
    and ni: "x \<notin> set_tree l" "x \<notin> set_tree r" "h \<notin> set_tree l" "h \<notin> set_tree r"
    and kl: "k \<notin> keyv s ` set_tree l" and kr: "k \<notin> keyv s ` set_tree r"
    and ky: "keyv s h \<noteq> keyv s x"
    and dmx: "depth < max_depth s" "Suc depth + height l \<le> max_depth s"
      "Suc depth + height r \<le> max_depth s"
    using Node.prems by auto
  let ?c = "if k < keyv s x then l else r"
  show ?case
  proof (cases "zero_path (bal s) (keyv s) k ?c")
    case True
    then have nz: "bal s x \<noteq> 0"
      using Node.prems(12) by auto
    show ?thesis
      unfolding hx
      by (rule insert_at_unbal[where branch = branch, OF nf t Node.prems(3-11) nz True Node.prems(13-15)
            Node.prems(16)[unfolded hx] Node.prems(17)[unfolded hx]])
  next
    case False
    let ?b = "branch(depth := keyv s x < k)"
    show ?thesis
    proof (cases "k < keyv s x")
      case lt: True
      then have nzl: "\<not> zero_path (bal s) (keyv s) k l"
        using False by simp
      then have ln: "lnk_lt s x \<noteq> null"
        using tl by (cases l) auto
      have px: "x \<noteq> null \<longrightarrow> 0 < Suc depth \<and>
          (if ?b (Suc depth - 1) then lnk_gt s x = lnk_lt s x else lnk_lt s x = lnk_lt s x)"
        using lt by simp
      have xr: "x = null \<longrightarrow> root s = lnk_lt s x"
        using xn by simp
      obtain u pu ud where acc:
        "(if bal s x \<noteq> 0 then (x, p, depth) else (unbal, punbal, udepth)) = (u, pu, ud)"
        by (cases "(if bal s x \<noteq> 0 then (x, p, depth) else (unbal, punbal, udepth))") auto
      from Node.IH(1)[where branch = ?b and unbal = u and punbal = pu and udepth = ud,
          OF nf tl bl dl ni(3) Node.prems(6-10) kl nzl dmx(2) ni(1) xn(2) px xr]
      obtain s' where s': "insert_descend h ?b u pu ud (lnk_lt s x) x (Suc depth) s = Some (h, s')"
        "ins_ok s s' h l x (?b (Suc depth - 1))"
        by blast
      have step: "insert_descend h branch unbal punbal udepth hh p depth s
          = insert_descend h ?b u pu ud (lnk_lt s x) x (Suc depth) s"
        using lt hx ky dmx(1) nf ln Node.prems(10) acc
        by (subst insert_descend.simps) (auto simp add: Let_def cmp_n_n_simps split: if_splits)
      have okl: "ins_ok s s' h l x False"
        using s'(2) lt by simp
      have pp: "p \<noteq> null \<longrightarrow> (if branch (depth - 1) then lnk_gt s p = x else lnk_lt s p = x)"
        "p = null \<longrightarrow> root s = x"
        using Node.prems(16,17) hx by auto
      have "ins_ok s s' h (Node l x r) p (branch (depth - 1))"
        by (rule ins_ok_lift_lt[OF okl t Node.prems(3,4,5) _ Node.prems(14,15) pp])
          (use lt Node.prems(10) in simp)
      then show ?thesis
        using step s'(1) by simp
    next
      case nlt: False
      then have gt: "keyv s x < k"
        using ky Node.prems(10) by simp
      have nzr: "\<not> zero_path (bal s) (keyv s) k r"
        using False nlt by simp
      then have rn: "lnk_gt s x \<noteq> null"
        using tr by (cases r) auto
      have px: "x \<noteq> null \<longrightarrow> 0 < Suc depth \<and>
          (if ?b (Suc depth - 1) then lnk_gt s x = lnk_gt s x else lnk_lt s x = lnk_gt s x)"
        using gt by simp
      have xr: "x = null \<longrightarrow> root s = lnk_gt s x"
        using xn by simp
      obtain u pu ud where acc:
        "(if bal s x \<noteq> 0 then (x, p, depth) else (unbal, punbal, udepth)) = (u, pu, ud)"
        by (cases "(if bal s x \<noteq> 0 then (x, p, depth) else (unbal, punbal, udepth))") auto
      from Node.IH(2)[where branch = ?b and unbal = u and punbal = pu and udepth = ud,
          OF nf tr br dr ni(4) Node.prems(6-10) kr nzr dmx(3) ni(2) xn(2) px xr]
      obtain s' where s': "insert_descend h ?b u pu ud (lnk_gt s x) x (Suc depth) s = Some (h, s')"
        "ins_ok s s' h r x (?b (Suc depth - 1))"
        by blast
      have step: "insert_descend h branch unbal punbal udepth hh p depth s
          = insert_descend h ?b u pu ud (lnk_gt s x) x (Suc depth) s"
        using nlt gt hx ky dmx(1) nf rn Node.prems(10) acc
        by (subst insert_descend.simps) (auto simp add: Let_def cmp_n_n_simps split: if_splits)
      have okr: "ins_ok s s' h r x True"
        using s'(2) gt by simp
      have pp: "p \<noteq> null \<longrightarrow> (if branch (depth - 1) then lnk_gt s p = x else lnk_lt s p = x)"
        "p = null \<longrightarrow> root s = x"
        using Node.prems(16,17) hx by auto
      have "ins_ok s s' h (Node l x r) p (branch (depth - 1))"
        by (rule ins_ok_lift_gt[OF okr t Node.prems(3,4,5) _ Node.prems(14,15) pp])
          (use nlt Node.prems(10) in simp)
      then show ?thesis
        using step s'(1) by simp
    qed
  qed
qed

lemma ordered_tins:
  "ordered s t \<Longrightarrow> keyv s h \<notin> keyv s ` set_tree t \<Longrightarrow> ordered s (tins (keyv s) h t)"
proof (induction t)
  case Leaf
  then show ?case by (simp add: ordered_def)
next
  case (Node l x r)
  then show ?case
    by (auto simp: ordered_node)
qed

lemma ordered_inorder_cong: "inorder t' = inorder t \<Longrightarrow> ordered s t' = ordered s t"
  by (simp add: ordered_def)

lemma frame_keyv: "frame A s s' \<Longrightarrow> keyv s' = keyv s"
  by (simp add: frame_def)

lemma frame_max_depth: "frame A s s' \<Longrightarrow> max_depth s' = max_depth s"
  by (simp add: frame_def)

lemma insert_fresh:
  assumes nf: "no_faults s" and t: "is_tree s (root s) T" and b: "balanced s T"
    and o: "ordered s T" and hn: "h \<noteq> null" and hT: "h \<notin> set_tree T"
    and k: "keyv s h \<notin> keyv s ` set_tree T" and dm: "height T \<le> max_depth s"
  shows "\<exists>s' T'. insert_node h s = Some (h, s') \<and> is_tree s' (root s') T' \<and> balanced s' T'
           \<and> ordered s' T' \<and> inorder T' = inorder (tins (keyv s) h T)
           \<and> height T' \<le> height T + 1 \<and> frame ({h, null} \<union> set_tree T) s s'"
proof -
  define s0 where "s0 = set_bf (set_gt (set_lt s h null) h null) h 0"
  have f0: "frame {h} s s0"
    by (simp add: frame_def s0_def)
  have s0f: "keyv s0 = keyv s" "root s0 = root s" "max_depth s0 = max_depth s" "no_faults s0"
    "lnk_lt s0 h = null" "lnk_gt s0 h = null" "bal s0 h = 0"
    using nf by (simp_all add: s0_def)
  have t0: "is_tree s0 (root s0) T" and b0: "balanced s0 T"
    using t b hT by (simp_all add: s0_def)
  have d: "distinct (inorder T)"
    by (rule ordered_distinct[OF o])
  have ot: "ordered s (tins (keyv s) h T)"
    by (rule ordered_tins[OF o k])
  have eq: "insert_node h s = (if root s = null then Some (h, s0\<lparr>root := h\<rparr>)
        else insert_descend h (\<lambda>_. False) null null 0 (root s) null 0 s0)"
    by (simp add: insert_node_def Let_def s0_def)
  show ?thesis
  proof (cases T)
    case Leaf
    then have rn: "root s = null"
      using t by simp
    let ?s' = "s0\<lparr>root := h\<rparr>"
    have "is_tree ?s' (root ?s') (Node Leaf h Leaf)" "balanced ?s' (Node Leaf h Leaf)"
      "ordered ?s' (Node Leaf h Leaf)" "frame ({h, null} \<union> set_tree T) s ?s'"
      using hn s0f f0 by (simp_all add: ordered_def frame_def)
    then show ?thesis
      unfolding eq using rn Leaf by (intro exI[of _ ?s'] exI[of _ "Node Leaf h Leaf"]) simp
  next
    case (Node l x r)
    then have rn: "root s \<noteq> null" and ne: "T \<noteq> Leaf"
      using t by auto
    have k0: "keyv s h = keyv s0 h" "keyv s0 h \<notin> keyv s0 ` set_tree T"
      using k s0f(1) by simp_all
    have dm0: "0 + height T \<le> max_depth s0"
      using dm s0f(3) by simp
    show ?thesis
    proof (cases "zero_path (bal s0) (keyv s0) (keyv s0 h) T")
      case True
      have e1: "insert_descend h (\<lambda>_. False) null null 0 (root s0) null 0 s0
         = insert_attach h (path_bits (keyv s0) (keyv s0 h) T (\<lambda>_. False) 0) null null 0
             (last_node (keyv s0) (keyv s0 h) T)
             (if keyv s0 h < keyv s0 (last_node (keyv s0) (keyv s0 h) T) then - 1 else 1) s0"
        by (rule insert_descend_zero[OF s0f(4) t0 ne refl k0(2) True dm0])
      from insert_attach_root[OF s0f(4) t0 ne b0 d hT hn s0f(5-7) refl k0(2) True
          bits_ok_path_bits] dm0
      obtain s' where s': "insert_attach h (path_bits (keyv s0) (keyv s0 h) T (\<lambda>_. False) 0)
             null null 0 (last_node (keyv s0) (keyv s0 h) T)
             (if keyv s0 h < keyv s0 (last_node (keyv s0) (keyv s0 h) T) then - 1 else 1) s0
             = Some (h, s')"
        "is_tree s' (root s') (tins (keyv s0) h T)" "balanced s' (tins (keyv s0) h T)"
        "height (tins (keyv s0) h T) = height T + 1" "frame (set_tree T) s0 s'"
        by auto
      have fr: "frame ({h} \<union> set_tree T) s s'"
        by (rule frame_trans[OF f0 s'(5)])
      then have fr': "frame ({h, null} \<union> set_tree T) s s'"
        by (rule frame_mono) auto
      have "ordered s' (tins (keyv s) h T)"
        using ot frame_ordered[OF fr] by simp
      then show ?thesis
        unfolding eq using rn e1 s' fr' s0f(1,2)
        by (intro exI[of _ s'] exI[of _ "tins (keyv s) h T"]) simp
    next
      case False
      have pn: "null \<notin> set_tree T" "null \<noteq> h"
        using null_notin[OF t] hn by auto
      from insert_descend_unbal[where branch = "\<lambda>_. False" and p = null and depth = 0
          and unbal = null and punbal = null and udepth = 0,
          OF s0f(4) t0 b0 d hT hn s0f(5-7) refl k0(2) False dm0 pn]
      obtain s' where s': "insert_descend h (\<lambda>_. False) null null 0 (root s0) null 0 s0 = Some (h, s')"
        "ins_ok s0 s' h T null False"
        by auto
      from s'(2) obtain T' where T': "is_tree s' (root s') T'" "balanced s' T'"
        "inorder T' = inorder (tins (keyv s0) h T)" "height T' = height T"
        "frame ({h, null} \<union> set_tree T) s0 s'"
        unfolding ins_ok_def by auto
      have "frame ({h} \<union> ({h, null} \<union> set_tree T)) s s'"
        by (rule frame_trans[OF f0 T'(5)])
      then have fr': "frame ({h, null} \<union> set_tree T) s s'"
        by (rule frame_mono) auto
      have "ordered s' T'"
        using ot frame_ordered[OF fr'] ordered_inorder_cong[OF T'(3)] s0f(1) by simp
      then show ?thesis
        unfolding eq using rn s'(1) T' fr' s0f(1,2)
        by (intro exI[of _ s'] exI[of _ T']) simp
    qed
  qed
qed

lemma insert_duplicate:
  assumes nf: "no_faults s" and t: "is_tree s (root s) T" and o: "ordered s T"
    and hT: "h \<notin> set_tree T" and x: "x \<in> set_tree T" "keyv s x = keyv s h"
    and dm: "height T \<le> max_depth s"
  shows "insert_node h s = Some (x, set_bf (set_gt (set_lt s h null) h null) h 0)"
proof -
  define s0 where "s0 = set_bf (set_gt (set_lt s h null) h null) h 0"
  have s0f: "keyv s0 = keyv s" "root s0 = root s" "max_depth s0 = max_depth s" "no_faults s0"
    using nf by (simp_all add: s0_def)
  have t0: "is_tree s0 (root s0) T" and o0: "ordered s0 T"
    using t o hT by (simp_all add: s0_def)
  have rn: "root s0 \<noteq> null"
    using t0 x(1) by (cases T) auto
  have "insert_descend h (\<lambda>_. False) null null 0 (root s0) null 0 s0 = Some (x, s0)"
    by (rule insert_descend_dup[OF s0f(4) t0 o0 x(1)]) (use x(2) dm s0f in simp_all)
  then show ?thesis
    using rn[unfolded s0f(2)] s0f(2) by (simp add: insert_node_def Let_def flip: s0_def)
qed

section \<open>Claims about insertion of an existing key and removal of an absent key\<close>




lemma demo5dirty_facts:
  "is_tree demo5dirty (root demo5dirty) tree5" "ordered demo5dirty tree5"
  "no_faults demo5dirty" "height tree5 \<le> max_depth demo5dirty"
  by (simp_all add: demo5dirty_def demo5dup_def demo5_def tree5_def blank_def null_def
      ordered_def no_faults_def)

text \<open>
  C9. \<open>insert_node h\<close> overwrites the three tree fields of \<open>h\<close> before it looks at the tree.
  For every state and every handle \<open>h\<close>: (1) the values that the less link, the greater link
  and the balance factor of \<open>h\<close> had before the call have no influence on the result, neither
  on the node returned nor on any field of the final state; (2) on the empty tree the final state
  is the initial one with both links of \<open>h\<close> null, its balance factor \<open>0\<close> and \<open>h\<close> as root.
  (3) When the stored tree satisfies the search order and another node \<open>x\<close> of it has the key
  of \<open>h\<close>, \<open>x\<close> is returned and the final state is the initial one with exactly these three
  fields of \<open>h\<close> overwritten by null, null and \<open>0\<close>. (4) When the stored tree satisfies the
  invariants and neither \<open>h\<close> nor its key is in it, \<open>h\<close> is returned and the final state stores
  a balanced search tree whose nodes in order are the former ones with \<open>h\<close> inserted at its
  place, whatever the three fields of \<open>h\<close> held before the call.
\<close>

theorem insert_overwrites_fields:
  "insert_node h (s\<lparr>lnk_lt := (lnk_lt s)(h := a), lnk_gt := (lnk_gt s)(h := b),
                    bal := (bal s)(h := c)\<rparr>) = insert_node h s
   \<and> insert_node h (s\<lparr>root := null\<rparr>)
       = Some (h, s\<lparr>lnk_lt := (lnk_lt s)(h := null), lnk_gt := (lnk_gt s)(h := null),
                    bal := (bal s)(h := 0), root := h\<rparr>)
   \<and> (no_faults s \<and> is_tree s (root s) T \<and> ordered s T \<and> height T \<le> max_depth s
        \<and> x \<in> set_tree T \<and> keyv s x = keyv s h \<and> x \<noteq> h
      \<longrightarrow> insert_node h s
            = Some (x, s\<lparr>lnk_lt := (lnk_lt s)(h := null), lnk_gt := (lnk_gt s)(h := null),
                         bal := (bal s)(h := 0)\<rparr>))
   \<and> (no_faults s \<and> is_tree s (root s) T \<and> balanced s T \<and> ordered s T
        \<and> height T \<le> max_depth s \<and> h \<noteq> null \<and> h \<notin> set_tree T
        \<and> keyv s h \<notin> keyv s ` set_tree T
      \<longrightarrow> (\<exists>s' T'. insert_node h s = Some (h, s') \<and> is_tree s' (root s') T'
             \<and> balanced s' T' \<and> ordered s' T'
             \<and> inorder T' = inorder (tins (keyv s) h T)))"
proof (intro conjI impI)
  show "insert_node h (s\<lparr>lnk_lt := (lnk_lt s)(h := a), lnk_gt := (lnk_gt s)(h := b),
                    bal := (bal s)(h := c)\<rparr>) = insert_node h s"
    by (simp add: insert_node_def Let_def set_lt_def set_less_def set_gt_def set_greater_def
        set_bf_def set_balance_factor_def)
  show "insert_node h (s\<lparr>root := null\<rparr>)
       = Some (h, s\<lparr>lnk_lt := (lnk_lt s)(h := null), lnk_gt := (lnk_gt s)(h := null),
                    bal := (bal s)(h := 0), root := h\<rparr>)"
    by (simp add: insert_node_def Let_def set_lt_def set_less_def set_gt_def set_greater_def
        set_bf_def set_balance_factor_def)
next
  assume a: "no_faults s \<and> is_tree s (root s) T \<and> ordered s T \<and> height T \<le> max_depth s
        \<and> x \<in> set_tree T \<and> keyv s x = keyv s h \<and> x \<noteq> h"
  have hT: "h \<notin> set_tree T"
  proof
    assume "h \<in> set_tree T"
    then have "h \<in> set (inorder T)" "x \<in> set (inorder T)"
      using a by simp_all
    moreover have "inj_on (keyv s) (set (inorder T))"
      using a unfolding ordered_def
      by (metis distinct_map strict_sorted_iff sorted_wrt_map)
    ultimately show False
      using a by (auto dest: inj_onD)
  qed
  have "insert_node h s = Some (x, set_bf (set_gt (set_lt s h null) h null) h 0)"
    by (rule insert_duplicate[OF _ _ _ hT]) (use a in simp_all)
  then show "insert_node h s
            = Some (x, s\<lparr>lnk_lt := (lnk_lt s)(h := null), lnk_gt := (lnk_gt s)(h := null),
                         bal := (bal s)(h := 0)\<rparr>)"
    by (simp add: set_lt_def set_less_def set_gt_def set_greater_def
        set_bf_def set_balance_factor_def)
next
  assume a: "no_faults s \<and> is_tree s (root s) T \<and> balanced s T \<and> ordered s T
        \<and> height T \<le> max_depth s \<and> h \<noteq> null \<and> h \<notin> set_tree T
        \<and> keyv s h \<notin> keyv s ` set_tree T"
  have "\<exists>s' T'. insert_node h s = Some (h, s') \<and> is_tree s' (root s') T' \<and> balanced s' T'
           \<and> ordered s' T' \<and> inorder T' = inorder (tins (keyv s) h T)
           \<and> height T' \<le> height T + 1 \<and> frame ({h, null} \<union> set_tree T) s s'"
    by (rule insert_fresh) (use a in simp_all)
  then show "\<exists>s' T'. insert_node h s = Some (h, s') \<and> is_tree s' (root s') T'
             \<and> balanced s' T' \<and> ordered s' T'
             \<and> inorder T' = inorder (tins (keyv s) h T)"
    by blast
qed

theorem insert_overwrites_fields_witness:
  "lnk_lt demo5dirty 6 = 3 \<and> lnk_gt demo5dirty 6 = 5 \<and> bal demo5dirty 6 = 1
   \<and> insert_node 6 demo5dirty
       = Some (2, demo5dirty\<lparr>lnk_lt := (lnk_lt demo5dirty)(6 := null),
                   lnk_gt := (lnk_gt demo5dirty)(6 := null), bal := (bal demo5dirty)(6 := 0)\<rparr>)
   \<and> insert_node 6 (demo5dirty\<lparr>root := null\<rparr>)
       = Some (6, demo5dirty\<lparr>lnk_lt := (lnk_lt demo5dirty)(6 := null),
                   lnk_gt := (lnk_gt demo5dirty)(6 := null), bal := (bal demo5dirty)(6 := 0),
                   root := 6\<rparr>)
   \<and> insert_node 6 demo5dirty = insert_node 6 demo5dup
   \<and> lnk_lt demo5fresh 6 = 3 \<and> lnk_gt demo5fresh 6 = 5 \<and> bal demo5fresh 6 = 1
   \<and> (\<exists>s' T'. insert_node 6 demo5fresh = Some (6, s') \<and> is_tree s' (root s') T'
          \<and> balanced s' T' \<and> ordered s' T' \<and> inorder T' = [1, 2, 3, 4, 5, 6])"
proof -
  note th = insert_overwrites_fields[where h = 6 and s = demo5dirty and T = tree5 and x = 2]
  have a: "no_faults demo5dirty \<and> is_tree demo5dirty (root demo5dirty) tree5
        \<and> ordered demo5dirty tree5 \<and> height tree5 \<le> max_depth demo5dirty
        \<and> 2 \<in> set_tree tree5 \<and> keyv demo5dirty 2 = keyv demo5dirty 6 \<and> (2::nat) \<noteq> 6"
    using demo5dirty_facts
    by (simp add: demo5dirty_def demo5dup_def demo5_def blank_def tree5_def)
  have 1: "insert_node 6 demo5dirty
       = Some (2, demo5dirty\<lparr>lnk_lt := (lnk_lt demo5dirty)(6 := null),
                   lnk_gt := (lnk_gt demo5dirty)(6 := null), bal := (bal demo5dirty)(6 := 0)\<rparr>)"
    using th[THEN conjunct2, THEN conjunct2, THEN conjunct1] a
    by blast
  have 2: "insert_node 6 (demo5dirty\<lparr>root := null\<rparr>)
       = Some (6, demo5dirty\<lparr>lnk_lt := (lnk_lt demo5dirty)(6 := null),
                   lnk_gt := (lnk_gt demo5dirty)(6 := null), bal := (bal demo5dirty)(6 := 0),
                   root := 6\<rparr>)"
    by (rule th[THEN conjunct2, THEN conjunct1])
  have "demo5dirty = demo5dup\<lparr>lnk_lt := (lnk_lt demo5dup)(6 := 3),
      lnk_gt := (lnk_gt demo5dup)(6 := 5), bal := (bal demo5dup)(6 := 1)\<rparr>"
    by (simp add: demo5dirty_def)
  then have 3: "insert_node 6 demo5dirty = insert_node 6 demo5dup"
    using insert_overwrites_fields[where h = 6 and s = demo5dup and a = 3 and b = 5 and c = 1,
        THEN conjunct1] by simp
  have 0: "lnk_lt demo5dirty 6 = 3 \<and> lnk_gt demo5dirty 6 = 5 \<and> bal demo5dirty 6 = 1"
    by (simp add: demo5dirty_def demo5dup_def demo5_def blank_def)
  have 4: "lnk_lt demo5fresh 6 = 3 \<and> lnk_gt demo5fresh 6 = 5 \<and> bal demo5fresh 6 = 1"
    by (simp add: demo5fresh_def demo5_def blank_def)
  have b: "no_faults demo5fresh \<and> is_tree demo5fresh (root demo5fresh) tree5
        \<and> balanced demo5fresh tree5 \<and> ordered demo5fresh tree5
        \<and> height tree5 \<le> max_depth demo5fresh \<and> 6 \<noteq> null \<and> 6 \<notin> set_tree tree5
        \<and> keyv demo5fresh 6 \<notin> keyv demo5fresh ` set_tree tree5"
    by (simp add: demo5fresh_def demo5_def tree5_def blank_def null_def ordered_def
        no_faults_def)
  have t: "inorder (tins (keyv demo5fresh) 6 tree5) = [1, 2, 3, 4, 5, 6]"
    by (simp add: demo5fresh_def demo5_def tree5_def blank_def)
  have 5: "\<exists>s' T'. insert_node 6 demo5fresh = Some (6, s') \<and> is_tree s' (root s') T'
          \<and> balanced s' T' \<and> ordered s' T' \<and> inorder T' = [1, 2, 3, 4, 5, 6]"
    using insert_overwrites_fields[where h = 6 and s = demo5fresh and T = tree5,
        THEN conjunct2, THEN conjunct2, THEN conjunct2] b unfolding t
    by blast
  show ?thesis
    using 0 1 2 3 4 5 by blast
qed

lemma remove_find_absent:
  assumes "no_faults s" and "is_tree s h t" and "k \<notin> keyv s ` set_tree t"
    and "depth + height t \<le> max_depth s"
  shows "remove_find k branch css h parent depth s = Some (null, s)"
  using assms
proof (induction t arbitrary: h parent depth branch css)
  case Leaf
  then show ?case
    by (subst remove_find.simps) simp
next
  case (Node l x r)
  have hx: "h = x" "x \<noteq> null" and tl: "is_tree s (lnk_lt s x) l" and tr: "is_tree s (lnk_gt s x) r"
    and kx: "k \<noteq> keyv s x" and kl: "k \<notin> keyv s ` set_tree l" and kr: "k \<notin> keyv s ` set_tree r"
    and dm: "depth < max_depth s" "Suc depth + height l \<le> max_depth s"
      "Suc depth + height r \<le> max_depth s"
    using Node.prems by auto
  show ?case
  proof (cases "k < keyv s x")
    case True
    show ?thesis
      using True hx kx dm(1) Node.prems(1) Node.IH(1)[OF Node.prems(1) tl kl dm(2)]
      by (subst remove_find.simps) (simp add: Let_def cmp_k_n_simps)
  next
    case False
    show ?thesis
      using False hx kx dm(1) Node.prems(1) Node.IH(2)[OF Node.prems(1) tr kr dm(3)]
      by (subst remove_find.simps) (simp add: Let_def cmp_k_n_simps)
  qed
qed

text \<open>
  C10. For a stored tree in which no node has the key \<open>k\<close>, and with no read error,
  \<open>remove_key k\<close> returns null and the state is exactly the one before the call.
\<close>

theorem remove_absent_key:
  assumes "no_faults s" and "is_tree s (root s) T" and "k \<notin> keyv s ` set_tree T"
    and "height T \<le> max_depth s"
  shows "remove_key k s = Some (null, s)"
  unfolding remove_key_def
  by (rule remove_find_absent[OF assms(1,2,3)]) (use assms(4) in simp)

theorem remove_absent_key_witness:
  "remove_key 25 demo5 = Some (null, demo5)"
  by (rule remove_absent_key[OF demo5_no_faults demo5_tree])
    (simp_all add: demo5_def blank_def tree5_def)

section \<open>The iterator\<close>

lemma is_tree_rt: "is_tree s h t \<Longrightarrow> h = rt t"
  by (cases t) simp_all

lemma rt_null: "is_tree s h t \<Longrightarrow> (rt t = null) = (t = Leaf)"
  by (cases t) auto

lemma inpath_bound: "inpath it D d t \<Longrightarrow> d \<le> D \<and> D < d + height t"
proof (induction t arbitrary: d)
  case Leaf
  then show ?case by simp
next
  case (Node l x r)
  show ?case
  proof (cases "D = d")
    case True
    then show ?thesis by simp
  next
    case False
    then have "inpath it D (Suc d) r \<or> inpath it D (Suc d) l"
      using Node.prems by (simp split: if_splits)
    then have "Suc d \<le> D \<and> (D < Suc d + height r \<or> D < Suc d + height l)"
      using Node.IH by blast
    then show ?thesis
      by auto
  qed
qed

lemma unat_depth: "D < 2 ^ 32 \<Longrightarrow> unat (of_nat D :: 32 word) = D"
  by (simp add: unat_of_nat)

lemma depth_valid: "D < 2 ^ 32 - 1 \<Longrightarrow> (of_nat D :: 32 word) \<noteq> invalid_depth"
proof
  assume a: "D < 2 ^ 32 - 1" and "(of_nat D :: 32 word) = invalid_depth"
  then have "unat (of_nat D :: 32 word) = unat (NOT 0 :: 32 word)"
    by (simp add: invalid_depth_def)
  then show False
    using a by (simp add: unat_of_nat unsigned_minus_1_eq_mask mask_eq_exp_minus_1)
qed

lemma depth_zero: "D < 2 ^ 32 \<Longrightarrow> ((of_nat D :: 32 word) = 0) = (D = 0)"
  using unat_depth[of D] by (auto simp: unat_eq_0)

lemma depth_pred: "0 < D \<Longrightarrow> (of_nat D :: 32 word) - 1 = of_nat (D - 1)"
  by (cases D) simp_all

lemma invalid_succ: "invalid_depth + 1 = (0 :: 32 word)"
  by (simp add: invalid_depth_def)

lemma remaining_hd:
  "is_tree s h t \<Longrightarrow> inpath it D d t \<Longrightarrow> h = nodeat it s d
    \<Longrightarrow> remaining it D d t \<noteq> [] \<and> hd (remaining it D d t) = nodeat it s D"
proof (induction t arbitrary: d h)
  case Leaf
  then show ?case by simp
next
  case (Node l x r)
  show ?case
  proof (cases "D = d")
    case True
    then show ?thesis using Node.prems by simp
  next
    case False
    show ?thesis
    proof (cases "it_branch it d")
      case True
      have "is_tree s (lnk_gt s x) r" "inpath it D (Suc d) r" "it_path_h it d = rt r"
        using Node.prems False True by simp_all
      moreover have "lnk_gt s x = nodeat it s (Suc d)"
        using is_tree_rt[OF calculation(1)] calculation(3) by (simp add: nodeat_def)
      ultimately show ?thesis
        using Node.IH(2) False True by simp
    next
      case f: False
      have "is_tree s (lnk_lt s x) l" "inpath it D (Suc d) l" "it_path_h it d = rt l"
        using Node.prems False f by simp_all
      moreover have "lnk_lt s x = nodeat it s (Suc d)"
        using is_tree_rt[OF calculation(1)] calculation(3) by (simp add: nodeat_def)
      ultimately show ?thesis
        using Node.IH(1) False f by simp
    qed
  qed
qed

lemma deref_nodeat:
  assumes "it_depth it = of_nat D" and "D < max_depth s" and "max_depth s < 2 ^ 32"
  shows "deref it s = Some (nodeat it s D)"
proof (cases "D = 0")
  case True
  then show ?thesis
    using assms(1) by (simp add: deref_def nodeat_def invalid_depth_def)
next
  case False
  have v: "(of_nat D :: 32 word) \<noteq> invalid_depth"
    by (rule depth_valid) (use assms in simp)
  have z: "(of_nat D :: 32 word) \<noteq> 0"
    using depth_zero[of D] assms False by simp
  have p: "(of_nat D :: 32 word) - 1 = of_nat (D - 1)"
    by (rule depth_pred) (use False in simp)
  have u: "unat (of_nat (D - 1) :: 32 word) = D - 1"
    by (rule unat_depth) (use assms in simp)
  have "D - 1 < max_depth s - 1"
    using assms False by simp
  then show ?thesis
    using False unfolding deref_def nodeat_def assms(1) p u by (simp add: v z)
qed

lemma incr_pop_run:
  "it_depth it = of_nat D \<Longrightarrow> d \<le> D \<Longrightarrow> D < max_depth s \<Longrightarrow> max_depth s < 2 ^ 32
    \<Longrightarrow> \<forall>j. d \<le> j \<and> j < D \<longrightarrow> it_branch it j
    \<Longrightarrow> incr_pop it s = incr_pop (it\<lparr>it_depth := of_nat d\<rparr>) s"
proof (induction D arbitrary: it)
  case 0
  then show ?case by (cases it) simp
next
  case (Suc D)
  show ?case
  proof (cases "d = Suc D")
    case True
    then show ?thesis using Suc.prems(1) by (cases it) simp
  next
    case False
    have z: "(of_nat (Suc D) :: 32 word) \<noteq> 0"
      using depth_zero[of "Suc D"] Suc.prems by simp
    have u: "unat (of_nat D :: 32 word) = D"
      using unat_depth[of D] Suc.prems by simp
    have b: "it_branch it D"
      using Suc.prems False by simp
    have "incr_pop it s = incr_pop (it\<lparr>it_depth := of_nat D\<rparr>) s"
      using z u b Suc.prems(1,3) by (subst incr_pop.simps) (simp add: Let_def)
    also have "\<dots> = incr_pop (it\<lparr>it_depth := of_nat D\<rparr>\<lparr>it_depth := of_nat d\<rparr>) s"
      by (rule Suc.IH) (use Suc.prems False in simp_all)
    finally show ?thesis by simp
  qed
qed

lemma incr_pop_stop:
  "it_depth it = of_nat (Suc d) \<Longrightarrow> Suc d < max_depth s \<Longrightarrow> max_depth s < 2 ^ 32
    \<Longrightarrow> \<not> it_branch it d \<Longrightarrow> incr_pop it s = Some (it\<lparr>it_depth := of_nat d\<rparr>)"
  using depth_zero[of "Suc d"] unat_depth[of d]
  by (subst incr_pop.simps) (simp add: Let_def)

lemma incr_pop_end:
  "it_depth it = 0 \<Longrightarrow> incr_pop it s = Some (it\<lparr>it_depth := invalid_depth\<rparr>)"
  by (subst incr_pop.simps) simp

lemma depth_succ: "(of_nat d :: 32 word) + 1 = of_nat (Suc d)"
  by simp

lemma incr_dive_correct:
  assumes nf: "no_faults s" and md: "max_depth s < 2 ^ 32"
  shows "is_tree s h t \<Longrightarrow> t \<noteq> Leaf \<Longrightarrow> it_depth it = of_nat d
    \<Longrightarrow> d + height t \<le> max_depth s
    \<Longrightarrow> \<exists>it' D'. incr_dive it h s = Some (it', s) \<and> it_depth it' = of_nat D'
          \<and> inpath it' D' d t \<and> remaining it' D' d t = inorder t
          \<and> (\<forall>j<d. it_branch it' j = it_branch it j \<and> it_path_h it' j = it_path_h it j)"
proof (induction t arbitrary: it d h)
  case Leaf
  then show ?case by simp
next
  case (Node l x r)
  have hx: "h = x" and tl: "is_tree s (lnk_lt s x) l"
    using Node.prems(1) by simp_all
  show ?case
  proof (cases "l = Leaf")
    case True
    then have "lnk_lt s x = null"
      using tl by simp
    then have "incr_dive it h s = Some (it, s)"
      using nf hx by (subst incr_dive.simps) simp
    then show ?thesis
      using Node.prems(3) True by (intro exI[of _ it] exI[of _ d]) simp
  next
    case False
    define c where "c = lnk_lt s x"
    have cn: "c \<noteq> null" and cr: "c = rt l"
      using tl False is_tree_rt[OF tl] rt_null[OF tl] by (simp_all add: c_def)
    define it1 where "it1 = it\<lparr>it_branch := (it_branch it)(d := False),
      it_path_h := (it_path_h it)(d := c), it_depth := of_nat d + 1\<rparr>"
    have d1: "it_depth it1 = of_nat (Suc d)"
      by (simp add: it1_def)
    have hl: "1 \<le> height l"
      using False by (cases l) simp_all
    have b: "d < max_depth s - 1" "d < max_depth s" "Suc d + height l \<le> max_depth s"
      using Node.prems(4) hl by simp_all
    have u: "unat (of_nat d :: 32 word) = d"
      by (rule unat_depth) (use b md in simp)
    have "incr_dive it h s = incr_dive it1 c s"
      using nf hx cn b(1,2)
      by (subst incr_dive.simps) (simp add: Node.prems(3) u it1_def flip: c_def)
    moreover have "\<exists>it' D'. incr_dive it1 c s = Some (it', s) \<and> it_depth it' = of_nat D'
          \<and> inpath it' D' (Suc d) l \<and> remaining it' D' (Suc d) l = inorder l
          \<and> (\<forall>j<Suc d. it_branch it' j = it_branch it1 j \<and> it_path_h it' j = it_path_h it1 j)"
      by (rule Node.IH(1)[OF _ False d1 b(3)]) (use tl in \<open>simp add: c_def\<close>)
    ultimately obtain it' D' where r: "incr_dive it h s = Some (it', s)"
      "it_depth it' = of_nat D'" "inpath it' D' (Suc d) l"
      "remaining it' D' (Suc d) l = inorder l"
      "\<forall>j<Suc d. it_branch it' j = it_branch it1 j \<and> it_path_h it' j = it_path_h it1 j"
      by auto
    have dD: "d < D'"
      using inpath_bound[OF r(3)] by simp
    have bd: "\<not> it_branch it' d" "it_path_h it' d = rt l"
      using r(5) cr by (simp_all add: it1_def)
    have below: "\<forall>j<d. it_branch it' j = it_branch it j \<and> it_path_h it' j = it_path_h it j"
      using r(5) by (simp add: it1_def)
    have "inpath it' D' d (Node l x r)"
      using dD bd r(3) by simp
    moreover have "remaining it' D' d (Node l x r) = inorder (Node l x r)"
      using dD bd r(4) by simp
    ultimately show ?thesis
      using r(1,2) below by blast
  qed
qed

lemma start_loop_first:
  "no_faults s \<Longrightarrow> x \<noteq> null \<Longrightarrow> it_depth it = invalid_depth
    \<Longrightarrow> start_iter_least_loop it x s
        = start_iter_least_loop (it\<lparr>it_depth := 0\<rparr>) (lnk_lt s x) s"
  by (subst start_iter_least_loop.simps) (simp add: invalid_succ)

lemma start_loop_next:
  assumes "no_faults s" and "x \<noteq> null" and "it_depth it = of_nat d"
    and "Suc d < max_depth s" and "max_depth s < 2 ^ 32"
  shows "start_iter_least_loop it x s
        = start_iter_least_loop (it\<lparr>it_path_h := (it_path_h it)(d := x),
            it_depth := of_nat (Suc d)\<rparr>) (lnk_lt s x) s"
proof -
  have v: "(of_nat d :: 32 word) \<noteq> invalid_depth"
    by (rule depth_valid) (use assms in simp)
  have u: "unat (of_nat d :: 32 word) = d"
    by (rule unat_depth) (use assms in simp)
  have "d < max_depth s - 1"
    using assms by simp
  then show ?thesis
    using assms(1,2) v
    by (subst start_iter_least_loop.simps) (simp add: assms(3) u add.commute)
qed

lemma start_iter_least_loop_correct:
  assumes nf: "no_faults s" and md: "max_depth s < 2 ^ 32"
  shows "is_tree s h t \<Longrightarrow> t \<noteq> Leaf \<Longrightarrow> it_depth it = of_nat d - 1
    \<Longrightarrow> d + height t \<le> max_depth s \<Longrightarrow> \<forall>j. \<not> it_branch it j
    \<Longrightarrow> d = 0 \<longrightarrow> h = root s
    \<Longrightarrow> \<exists>it' D'. start_iter_least_loop it h s = Some (it', s) \<and> it_depth it' = of_nat D'
          \<and> inpath it' D' d t \<and> remaining it' D' d t = inorder t
          \<and> nodeat it' s d = h \<and> it_branch it' = it_branch it
          \<and> (\<forall>j. Suc j < d \<longrightarrow> it_path_h it' j = it_path_h it j)"
proof (induction t arbitrary: it d h)
  case Leaf
  then show ?case by simp
next
  case (Node l x r)
  have hx: "h = x" and xn: "x \<noteq> null" and tl: "is_tree s (lnk_lt s x) l"
    using Node.prems(1) by simp_all
  define c where "c = lnk_lt s x"
  define it1 where "it1 = (if d = 0 then it else it\<lparr>it_path_h := (it_path_h it)(d - 1 := h)\<rparr>)
    \<lparr>it_depth := of_nat d\<rparr>"
  have b: "d < max_depth s"
    using Node.prems(4) by simp
  have step: "start_iter_least_loop it h s = start_iter_least_loop it1 c s"
  proof (cases "d = 0")
    case True
    then have "it_depth it = invalid_depth"
      using Node.prems(3) by (simp add: invalid_depth_def)
    from start_loop_first[OF nf xn this] show ?thesis
      using True by (simp add: it1_def c_def hx)
  next
    case False
    then obtain e where e: "d = Suc e"
      by (cases d) simp_all
    have "it_depth it = of_nat e"
      using Node.prems(3) e by simp
    from start_loop_next[OF nf xn this _ md] show ?thesis
      using b e by (simp add: it1_def c_def hx)
  qed
  have n1: "nodeat it1 s d = h"
    using Node.prems(6) by (simp add: nodeat_def it1_def)
  have br1: "\<forall>j. \<not> it_branch it1 j"
    using Node.prems(5) by (simp add: it1_def)
  have d1: "it_depth it1 = of_nat d"
    by (simp add: it1_def)
  have p1: "\<forall>j. Suc j < d \<longrightarrow> it_path_h it1 j = it_path_h it j"
    by (auto simp: it1_def)
  show ?case
  proof (cases "l = Leaf")
    case True
    then have "c = null"
      using tl by (simp add: c_def)
    then have "start_iter_least_loop it h s = Some (it1, s)"
      unfolding step by (subst start_iter_least_loop.simps) simp
    then show ?thesis
      using d1 n1 p1 True by (intro exI[of _ it1] exI[of _ d]) (simp add: it1_def)
  next
    case False
    have "\<exists>it' D'. start_iter_least_loop it1 c s = Some (it', s) \<and> it_depth it' = of_nat D'
          \<and> inpath it' D' (Suc d) l \<and> remaining it' D' (Suc d) l = inorder l
          \<and> nodeat it' s (Suc d) = c \<and> it_branch it' = it_branch it1
          \<and> (\<forall>j. Suc j < Suc d \<longrightarrow> it_path_h it' j = it_path_h it1 j)"
    proof (rule Node.IH(1))
      show "is_tree s c l" using tl by (simp add: c_def)
      show "l \<noteq> Leaf" by (rule False)
      show "it_depth it1 = of_nat (Suc d) - 1" using d1 by simp
      show "Suc d + height l \<le> max_depth s" using Node.prems(4) by simp
      show "\<forall>j. \<not> it_branch it1 j" by (rule br1)
      show "Suc d = 0 \<longrightarrow> c = root s" by simp
    qed
    then obtain it' D' where r: "start_iter_least_loop it h s = Some (it', s)"
      "it_depth it' = of_nat D'" "inpath it' D' (Suc d) l"
      "remaining it' D' (Suc d) l = inorder l" "nodeat it' s (Suc d) = c"
      "it_branch it' = it_branch it1"
      "\<forall>j. j < d \<longrightarrow> it_path_h it' j = it_path_h it1 j"
      unfolding step by auto
    have dD: "d < D'"
      using inpath_bound[OF r(3)] by simp
    have cr: "c = rt l"
      using is_tree_rt[OF tl] by (simp add: c_def)
    have bd: "\<not> it_branch it' d" "it_path_h it' d = rt l"
      using r(5,6) br1 cr by (simp_all add: nodeat_def)
    have bb: "it_branch it' = it_branch it"
      using r(6) by (simp add: it1_def)
    have nd: "nodeat it' s d = h"
      using n1 r(7) by (cases "d = 0") (simp_all add: nodeat_def)
    have below: "\<forall>j. Suc j < d \<longrightarrow> it_path_h it' j = it_path_h it j"
      using r(7) p1 by simp
    have "inpath it' D' d (Node l x r)"
      using dD bd r(3) by simp
    moreover have "remaining it' D' d (Node l x r) = inorder (Node l x r)"
      using dD bd r(4) by simp
    ultimately show ?thesis
      using r(1,2) nd bb below by blast
  qed
qed

lemma incr_at_end:
  assumes "no_faults s" and "it_depth it = of_nat D" and "D < max_depth s"
    and "max_depth s < 2 ^ 32" and "lnk_gt s (nodeat it s D) = null"
  shows "incr it s = (case incr_pop it s of None \<Rightarrow> None | Some it' \<Rightarrow> Some (it', s))"
proof -
  have v: "it_depth it \<noteq> invalid_depth"
    unfolding assms(2) by (rule depth_valid) (use assms in simp)
  show ?thesis
    unfolding incr_def deref_nodeat[OF assms(2,3,4)]
    using assms(1,5) v by simp
qed

lemma incr_push:
  assumes "no_faults s" and "it_depth it = of_nat D" and "Suc D < max_depth s"
    and "max_depth s < 2 ^ 32" and "lnk_gt s (nodeat it s D) = g" and "g \<noteq> null"
  shows "incr it s = incr_dive (it\<lparr>it_branch := (it_branch it)(D := True),
      it_path_h := (it_path_h it)(D := g), it_depth := of_nat (Suc D)\<rparr>) g s"
proof -
  have v: "it_depth it \<noteq> invalid_depth"
    unfolding assms(2) by (rule depth_valid) (use assms in simp)
  have u: "unat (it_depth it) = D"
    unfolding assms(2) by (rule unat_depth) (use assms in simp)
  have d: "D < max_depth s"
    using assms(3) by simp
  have b: "D < max_depth s - 1"
    using assms(3) by simp
  show ?thesis
    unfolding incr_def deref_nodeat[OF assms(2) d assms(4)]
    using assms(1,5,6) v d b by (simp add: u) (simp add: assms(2) add.commute)
qed

lemma incr_step:
  assumes nf: "no_faults s" and md: "max_depth s < 2 ^ 32"
  shows "is_tree s h t \<Longrightarrow> inpath it D d t \<Longrightarrow> h = nodeat it s d
    \<Longrightarrow> it_depth it = of_nat D \<Longrightarrow> d + height t \<le> max_depth s
    \<Longrightarrow> (tl (remaining it D d t) \<noteq> []
          \<longrightarrow> (\<exists>it' D'. incr it s = Some (it', s) \<and> it_depth it' = of_nat D'
                \<and> inpath it' D' d t \<and> remaining it' D' d t = tl (remaining it D d t)
                \<and> (\<forall>j<d. it_branch it' j = it_branch it j
                        \<and> it_path_h it' j = it_path_h it j)))
      \<and> (tl (remaining it D d t) = []
          \<longrightarrow> lnk_gt s (nodeat it s D) = null \<and> (\<forall>j. d \<le> j \<and> j < D \<longrightarrow> it_branch it j))"
proof (induction t arbitrary: d h)
  case Leaf
  then show ?case by simp
next
  case (Node l x r)
  have hx: "h = x" and xn: "x \<noteq> null" and tl: "is_tree s (lnk_lt s x) l"
    and tr: "is_tree s (lnk_gt s x) r"
    using Node.prems(1) by simp_all
  have Db: "d \<le> D" "D < d + height (Node l x r)"
    using inpath_bound[OF Node.prems(2)] by simp_all
  have Dm: "D < max_depth s"
    using Db Node.prems(5) by simp
  note dep = Node.prems(4)
  show ?case
  proof (cases "D = d")
    case True
    have cur: "nodeat it s D = x"
      using True Node.prems(3) hx by simp
    have rem: "remaining it D d (Node l x r) = x # inorder r"
      using True by simp
    show ?thesis
    proof (cases "r = Leaf")
      case rl: True
      then have "lnk_gt s x = null"
        using tr by simp
      then show ?thesis
        using rem rl cur True by auto
    next
      case False
      define g where "g = lnk_gt s x"
      have gn: "g \<noteq> null" and gr: "g = rt r"
        using tr False is_tree_rt[OF tr] rt_null[OF tr] by (simp_all add: g_def)
      define it1 where "it1 = it\<lparr>it_branch := (it_branch it)(D := True),
        it_path_h := (it_path_h it)(D := g), it_depth := of_nat (Suc D)\<rparr>"
      have hr: "1 \<le> height r"
        using False by (cases r) simp_all
      have b: "Suc D < max_depth s" "Suc d + height r \<le> max_depth s"
        using Node.prems(5) hr True by simp_all
      have e: "incr it s = incr_dive it1 g s"
        unfolding it1_def
        by (rule incr_push[OF nf dep b(1) md _ gn]) (simp add: cur g_def)
      have d1: "it_depth it1 = of_nat (Suc d)"
        using True by (simp add: it1_def)
      have "\<exists>it' D'. incr_dive it1 g s = Some (it', s) \<and> it_depth it' = of_nat D'
          \<and> inpath it' D' (Suc d) r \<and> remaining it' D' (Suc d) r = inorder r
          \<and> (\<forall>j<Suc d. it_branch it' j = it_branch it1 j
                 \<and> it_path_h it' j = it_path_h it1 j)"
        by (rule incr_dive_correct[OF nf md _ False d1 b(2)]) (use tr in \<open>simp add: g_def\<close>)
      then obtain it' D' where r: "incr it s = Some (it', s)"
        "it_depth it' = of_nat D'" "inpath it' D' (Suc d) r"
        "remaining it' D' (Suc d) r = inorder r"
        "\<forall>j<Suc d. it_branch it' j = it_branch it1 j \<and> it_path_h it' j = it_path_h it1 j"
        unfolding e by auto
      have dD: "d < D'"
        using inpath_bound[OF r(3)] by simp
      have bd: "it_branch it' d" "it_path_h it' d = rt r"
        using r(5) gr True by (simp_all add: it1_def)
      have below: "\<forall>j<d. it_branch it' j = it_branch it j \<and> it_path_h it' j = it_path_h it j"
        using r(5) True by (simp add: it1_def)
      have "inpath it' D' d (Node l x r)"
        using dD bd r(3) by simp
      moreover have "remaining it' D' d (Node l x r) = tl (remaining it D d (Node l x r))"
        using dD bd r(4) rem by simp
      moreover have "tl (remaining it D d (Node l x r)) \<noteq> []"
        using rem False by (cases r) simp_all
      ultimately show ?thesis
        using r(1,2) below by blast
    qed
  next
    case False
    then have dD: "d < D"
      using Db by simp
    show ?thesis
    proof (cases "it_branch it d")
      case True
      have ip: "inpath it D (Suc d) r" and ph: "it_path_h it d = rt r"
        using Node.prems(2) False True by simp_all
      have nd: "lnk_gt s x = nodeat it s (Suc d)"
        using is_tree_rt[OF tr] ph by (simp add: nodeat_def)
      have rem: "remaining it D d (Node l x r) = remaining it D (Suc d) r"
        using False True by simp
      have hb: "Suc d + height r \<le> max_depth s"
        using Node.prems(5) by simp
      note IH = Node.IH(2)[OF tr ip nd dep hb]
      show ?thesis
      proof (cases "tl (remaining it D (Suc d) r) = []")
        case e: True
        then have "lnk_gt s (nodeat it s D) = null"
          "\<forall>j. Suc d \<le> j \<and> j < D \<longrightarrow> it_branch it j"
          using IH by simp_all
        moreover have "\<forall>j. d \<le> j \<and> j < D \<longrightarrow> it_branch it j"
        proof (intro allI impI)
          fix j assume "d \<le> j \<and> j < D"
          then show "it_branch it j"
            using calculation(2) True by (cases "j = d") simp_all
        qed
        ultimately show ?thesis
          using rem e by simp
      next
        case ne: False
        then obtain it' D' where r: "incr it s = Some (it', s)"
          "it_depth it' = of_nat D'" "inpath it' D' (Suc d) r"
          "remaining it' D' (Suc d) r = tl (remaining it D (Suc d) r)"
          "\<forall>j<Suc d. it_branch it' j = it_branch it j \<and> it_path_h it' j = it_path_h it j"
          using IH by blast
        have dD': "d < D'"
          using inpath_bound[OF r(3)] by simp
        have bd: "it_branch it' d" "it_path_h it' d = rt r"
          using r(5) True ph by simp_all
        have below: "\<forall>j<d. it_branch it' j = it_branch it j \<and> it_path_h it' j = it_path_h it j"
          using r(5) by simp
        have "inpath it' D' d (Node l x r)"
          using dD' bd r(3) by simp
        moreover have "remaining it' D' d (Node l x r) = tl (remaining it D d (Node l x r))"
          using dD' bd r(4) rem by simp
        ultimately show ?thesis
          using r(1,2) below ne rem by auto
      qed
    next
      case bf: False
      have ip: "inpath it D (Suc d) l" and ph: "it_path_h it d = rt l"
        using Node.prems(2) False bf by simp_all
      have nd: "lnk_lt s x = nodeat it s (Suc d)"
        using is_tree_rt[OF tl] ph by (simp add: nodeat_def)
      define R where "R = remaining it D (Suc d) l"
      have rem: "remaining it D d (Node l x r) = R @ x # inorder r"
        using False bf by (simp add: R_def)
      have Rn: "R \<noteq> []"
        using remaining_hd[OF tl ip nd] by (simp add: R_def)
      have tlr: "tl (remaining it D d (Node l x r)) = tl R @ x # inorder r"
        using rem Rn by simp
      have hb: "Suc d + height l \<le> max_depth s"
        using Node.prems(5) by simp
      note IH = Node.IH(1)[OF tl ip nd dep hb, folded R_def]
      have "\<exists>it' D'. incr it s = Some (it', s) \<and> it_depth it' = of_nat D'
                \<and> inpath it' D' d (Node l x r)
                \<and> remaining it' D' d (Node l x r) = tl R @ x # inorder r
                \<and> (\<forall>j<d. it_branch it' j = it_branch it j
                        \<and> it_path_h it' j = it_path_h it j)"
      proof (cases "tl R = []")
        case e: True
        then have g: "lnk_gt s (nodeat it s D) = null"
          and bs: "\<forall>j. Suc d \<le> j \<and> j < D \<longrightarrow> it_branch it j"
          using IH by simp_all
        define it' where "it' = it\<lparr>it_depth := of_nat d\<rparr>"
        have sd: "Suc d < max_depth s"
          using dD Dm by simp
        have "incr_pop it s = incr_pop (it\<lparr>it_depth := of_nat (Suc d)\<rparr>) s"
          by (rule incr_pop_run[OF dep _ Dm md bs]) (use dD in simp)
        also have "\<dots> = Some (it\<lparr>it_depth := of_nat (Suc d)\<rparr>\<lparr>it_depth := of_nat d\<rparr>)"
          by (rule incr_pop_stop[OF _ sd md]) (use bf in simp_all)
        finally have "incr_pop it s = Some it'"
          by (simp add: it'_def)
        then have "incr it s = Some (it', s)"
          using incr_at_end[OF nf dep Dm md g] by simp
        moreover have "it_depth it' = of_nat d"
          by (simp add: it'_def)
        moreover have "inpath it' d d (Node l x r)"
          by simp
        moreover have "remaining it' d d (Node l x r) = tl R @ x # inorder r"
          using e by simp
        moreover have "\<forall>j<d. it_branch it' j = it_branch it j
            \<and> it_path_h it' j = it_path_h it j"
          by (simp add: it'_def)
        ultimately show ?thesis
          by blast
      next
        case ne: False
        then obtain it' D' where r: "incr it s = Some (it', s)"
          "it_depth it' = of_nat D'" "inpath it' D' (Suc d) l"
          "remaining it' D' (Suc d) l = tl R"
          "\<forall>j<Suc d. it_branch it' j = it_branch it j \<and> it_path_h it' j = it_path_h it j"
          using IH by blast
        have dD': "d < D'"
          using inpath_bound[OF r(3)] by simp
        have bd: "\<not> it_branch it' d" "it_path_h it' d = rt l"
          using r(5) bf ph by simp_all
        have below: "\<forall>j<d. it_branch it' j = it_branch it j \<and> it_path_h it' j = it_path_h it j"
          using r(5) by simp
        have "inpath it' D' d (Node l x r)"
          using dD' bd r(3) by simp
        moreover have "remaining it' D' d (Node l x r) = tl R @ x # inorder r"
          using dD' bd r(4) by simp
        ultimately show ?thesis
          using r(1,2) below by blast
      qed
      then show ?thesis
        unfolding tlr by simp
    qed
  qed
qed

lemma it_inv_deref:
  assumes "no_faults s" and "max_depth s < 2 ^ 32" and "is_tree s (root s) T"
    and "height T \<le> max_depth s" and "it_inv s T it xs"
  shows "xs \<noteq> [] \<and> deref it s = Some (hd xs)"
proof -
  obtain D where D: "it_depth it = of_nat D" "inpath it D 0 T" "remaining it D 0 T = xs"
    using assms(5) by (auto simp: it_inv_def)
  have "D < max_depth s"
    using inpath_bound[OF D(2)] assms(4) by simp
  from deref_nodeat[OF D(1) this assms(2)] remaining_hd[OF assms(3) D(2)] D(3)
  show ?thesis
    by (simp add: nodeat_def)
qed

lemma it_inv_incr:
  assumes "no_faults s" and "max_depth s < 2 ^ 32" and "is_tree s (root s) T"
    and "height T \<le> max_depth s" and "it_inv s T it xs" and "tl xs \<noteq> []"
  shows "\<exists>it'. incr it s = Some (it', s) \<and> it_inv s T it' (tl xs)"
proof -
  obtain D where D: "it_depth it = of_nat D" "inpath it D 0 T" "remaining it D 0 T = xs"
    using assms(5) by (auto simp: it_inv_def)
  have "root s = nodeat it s 0"
    by (simp add: nodeat_def)
  from incr_step[OF assms(1,2,3) D(2) this D(1)] assms(4,6) D(3)
  show ?thesis
    unfolding it_inv_def by auto
qed

lemma it_inv_incr_last:
  assumes "no_faults s" and "max_depth s < 2 ^ 32" and "is_tree s (root s) T"
    and "height T \<le> max_depth s" and "it_inv s T it xs" and "tl xs = []"
  shows "incr it s = Some (it\<lparr>it_depth := invalid_depth\<rparr>, s)"
proof -
  obtain D where D: "it_depth it = of_nat D" "inpath it D 0 T" "remaining it D 0 T = xs"
    using assms(5) by (auto simp: it_inv_def)
  have Dm: "D < max_depth s"
    using inpath_bound[OF D(2)] assms(4) by simp
  have "root s = nodeat it s 0"
    by (simp add: nodeat_def)
  from incr_step[OF assms(1,2,3) D(2) this D(1)] assms(4,6) D(3)
  have g: "lnk_gt s (nodeat it s D) = null" and b: "\<forall>j. 0 \<le> j \<and> j < D \<longrightarrow> it_branch it j"
    by simp_all
  have "incr_pop it s = incr_pop (it\<lparr>it_depth := of_nat 0\<rparr>) s"
    by (rule incr_pop_run[OF D(1) _ Dm assms(2) b]) simp
  also have "\<dots> = Some (it\<lparr>it_depth := of_nat 0\<rparr>\<lparr>it_depth := invalid_depth\<rparr>)"
    by (rule incr_pop_end) simp
  finally have "incr_pop it s = Some (it\<lparr>it_depth := invalid_depth\<rparr>)"
    by simp
  then show ?thesis
    using incr_at_end[OF assms(1) D(1) Dm assms(2) g] by simp
qed

lemma iterate_prefix:
  assumes "no_faults s" and "max_depth s < 2 ^ 32" and "is_tree s (root s) T"
    and "height T \<le> max_depth s"
  shows "it_inv s T it xs \<Longrightarrow> n < length xs
    \<Longrightarrow> \<exists>it'. iterate n it s = Some (take n xs, it', s) \<and> it_inv s T it' (drop n xs)"
proof (induction n arbitrary: it xs)
  case 0
  then show ?case by simp
next
  case (Suc n)
  obtain x ys where xs: "xs = x # ys"
    using Suc.prems(2) by (cases xs) simp_all
  have ne: "tl xs \<noteq> []"
    using Suc.prems(2) xs by auto
  have d: "deref it s = Some x"
    using it_inv_deref[OF assms Suc.prems(1)] xs by simp
  obtain it1 where i: "incr it s = Some (it1, s)" "it_inv s T it1 ys"
    using it_inv_incr[OF assms Suc.prems(1) ne] xs by auto
  obtain it' where r: "iterate n it1 s = Some (take n ys, it', s)" "it_inv s T it' (drop n ys)"
    using Suc.IH[OF i(2)] Suc.prems(2) xs by auto
  show ?case
    using d i(1) r xs by simp
qed

lemma iterate_snoc:
  "iterate n it s = Some (hs, it1, s1) \<Longrightarrow> deref it1 s1 = Some h
    \<Longrightarrow> incr it1 s1 = Some (it2, s2)
    \<Longrightarrow> iterate (Suc n) it s = Some (hs @ [h], it2, s2)"
proof (induction n arbitrary: it s hs)
  case 0
  then show ?case by simp
next
  case (Suc n)
  from Suc.prems(1) obtain x ita sa ys where
    a: "deref it s = Some x" "incr it s = Some (ita, sa)"
      "iterate n ita sa = Some (ys, it1, s1)" "hs = x # ys"
    by (auto split: option.splits)
  have "iterate (Suc n) ita sa = Some (ys @ [h], it2, s2)"
    by (rule Suc.IH[OF a(3) Suc.prems(2,3)])
  then show ?case
    using a(1,2,4) by (simp del: iterate.simps(2) add: iterate.simps(2)[of "Suc n"])
qed

lemma ordered_hd_least:
  "sorted_wrt (<) (map f xs) \<Longrightarrow> y \<in> set xs \<Longrightarrow> (f (hd xs) :: int) \<le> f y"
  by (cases xs) auto

lemma ordered_last_greatest:
  "sorted_wrt (<) (map f xs) \<Longrightarrow> y \<in> set xs \<Longrightarrow> (f y :: int) \<le> f (last xs)"
proof (induction xs)
  case Nil
  then show ?case by simp
next
  case (Cons a xs)
  show ?case
  proof (cases "xs = []")
    case True
    then show ?thesis using Cons.prems by simp
  next
    case False
    then have l: "last xs \<in> set xs"
      by simp
    have "f a < f (last xs)"
      using Cons.prems(1) l by simp
    moreover have "y \<in> set xs \<Longrightarrow> f y \<le> f (last xs)"
      using Cons.IH Cons.prems(1) by simp
    ultimately show ?thesis
      using Cons.prems(2) False by auto
  qed
qed

text \<open>
  C8. For a non-empty stored tree \<open>T\<close> in search order, without read faults and of a height
  within \<^verbatim>\<open>max_depth\<close> (an \<^verbatim>\<open>unsigned\<close> template parameter, hence below \<open>2 ^ 32\<close>),
  \<open>start_iter_least\<close> from any iterator \<open>it0\<close> returns an iterator that dereferences to the
  first node in order, which has the least key. Dereferencing and advancing \<open>size T - 1\<close>
  times yields all nodes but the last one, in order, and leaves the iterator on the last
  node, which has the greatest key; one more \<^verbatim>\<open>++\<close> makes the iterator invalid, and it then
  dereferences to null. Altogether \<open>size T\<close> rounds of dereferencing and advancing yield
  exactly the in-order sequence of \<open>T\<close>: every node of the tree once, by ascending key.
\<close>

theorem iterator_enumerates:
  assumes "no_faults s" and "is_tree s (root s) T" and "ordered s T" and "T \<noteq> Leaf"
    and "height T \<le> max_depth s" and "max_depth s < 2 ^ 32"
  shows "\<exists>it1 itg it2. start_iter_least it0 s = Some (it1, s)
      \<and> deref it1 s = Some (hd (inorder T))
      \<and> (\<forall>y\<in>set_tree T. keyv s (hd (inorder T)) \<le> keyv s y)
      \<and> iterate (size T - 1) it1 s = Some (butlast (inorder T), itg, s)
      \<and> deref itg s = Some (last (inorder T))
      \<and> (\<forall>y\<in>set_tree T. keyv s y \<le> keyv s (last (inorder T)))
      \<and> incr itg s = Some (it2, s) \<and> it_depth it2 = invalid_depth \<and> deref it2 s = Some null
      \<and> iterate (size T) it1 s = Some (inorder T, it2, s)
      \<and> distinct (inorder T) \<and> set (inorder T) = set_tree T
      \<and> sorted_wrt (<) (map (keyv s) (inorder T))"
proof -
  note ctx = assms(1,6,2,5)
  define it00 where "it00 = it0\<lparr>it_depth := invalid_depth, it_branch := (\<lambda>_. False)\<rparr>"
  have "\<exists>it' D'. start_iter_least_loop it00 (root s) s = Some (it', s)
          \<and> it_depth it' = of_nat D'
          \<and> inpath it' D' 0 T \<and> remaining it' D' 0 T = inorder T
          \<and> nodeat it' s 0 = root s \<and> it_branch it' = it_branch it00
          \<and> (\<forall>j. Suc j < 0 \<longrightarrow> it_path_h it' j = it_path_h it00 j)"
    by (rule start_iter_least_loop_correct[OF assms(1,6,2,4)])
      (use assms(5) in \<open>simp_all add: it00_def invalid_depth_def\<close>)
  then obtain it1 where s1: "start_iter_least it0 s = Some (it1, s)"
    and i1: "it_inv s T it1 (inorder T)"
    unfolding start_iter_least_def it_inv_def it00_def by auto
  have ne: "inorder T \<noteq> []"
    using assms(4) by (cases T) simp_all
  have len: "length (inorder T) = size T"
    by (rule length_inorder)
  have d1: "deref it1 s = Some (hd (inorder T))"
    using it_inv_deref[OF ctx i1] by simp
  have "size T - 1 < length (inorder T)"
    using ne len by (cases "inorder T") simp_all
  from iterate_prefix[OF ctx i1 this]
  obtain itg where g: "iterate (size T - 1) it1 s = Some (take (size T - 1) (inorder T), itg, s)"
    "it_inv s T itg (drop (size T - 1) (inorder T))"
    by auto
  have tk: "take (size T - 1) (inorder T) = butlast (inorder T)"
    by (simp add: butlast_conv_take len)
  have dr: "drop (size T - 1) (inorder T) = [last (inorder T)]"
    using ne len by (metis append_butlast_last_id append_take_drop_id same_append_eq tk)
  have dg: "deref itg s = Some (last (inorder T))"
    using it_inv_deref[OF ctx g(2)] dr by simp
  define it2 where "it2 = itg\<lparr>it_depth := invalid_depth\<rparr>"
  have ig: "incr itg s = Some (it2, s)"
    unfolding it2_def by (rule it_inv_incr_last[OF ctx g(2)]) (simp only: dr list.sel)
  have v2: "it_depth it2 = invalid_depth" and d2: "deref it2 s = Some null"
    by (simp_all add: it2_def deref_def)
  have "iterate (Suc (size T - 1)) it1 s = Some (butlast (inorder T) @ [last (inorder T)], it2, s)"
    by (rule iterate_snoc[OF g(1)[unfolded tk] dg ig])
  moreover have "Suc (size T - 1) = size T"
    using ne len by (cases "inorder T") simp_all
  ultimately have all: "iterate (size T) it1 s = Some (inorder T, it2, s)"
    using ne by simp
  have so: "sorted_wrt (<) (map (keyv s) (inorder T))"
    using assms(3) by (simp add: ordered_def)
  have di: "distinct (inorder T)"
    by (rule ordered_distinct[OF assms(3)])
  have lo: "\<forall>y\<in>set_tree T. keyv s (hd (inorder T)) \<le> keyv s y"
    using ordered_hd_least[OF so] by simp
  have hi: "\<forall>y\<in>set_tree T. keyv s y \<le> keyv s (last (inorder T))"
    using ordered_last_greatest[OF so] by simp
  have st: "set (inorder T) = set_tree T"
    by simp
  show ?thesis
    using s1 d1 lo g(1)[unfolded tk] dg hi ig v2 d2 all di st so by blast
qed

theorem iterator_enumerates_witness:
  "\<exists>it1 itg it2.
      start_iter_least \<lparr>it_branch = (\<lambda>_. True), it_depth = 7, it_path_h = (\<lambda>_. 9)\<rparr> demo5
        = Some (it1, demo5)
      \<and> deref it1 demo5 = Some 1
      \<and> iterate 4 it1 demo5 = Some ([1, 2, 3, 4], itg, demo5)
      \<and> deref itg demo5 = Some 5
      \<and> incr itg demo5 = Some (it2, demo5) \<and> it_depth it2 = invalid_depth
      \<and> deref it2 demo5 = Some null
      \<and> iterate 5 it1 demo5 = Some ([1, 2, 3, 4, 5], it2, demo5)"
proof -
  have a: "tree5 \<noteq> Leaf" "height tree5 \<le> max_depth demo5" "max_depth demo5 < 2 ^ 32"
    by (simp_all add: tree5_def demo5_def blank_def)
  have b: "inorder tree5 = [1, 2, 3, 4, 5]" "size tree5 = 5"
    by (simp_all add: tree5_def)
  from iterator_enumerates[OF demo5_no_faults demo5_tree demo5_ordered a,
      of "\<lparr>it_branch = (\<lambda>_. True), it_depth = 7, it_path_h = (\<lambda>_. 9)\<rparr>"]
  show ?thesis
    unfolding b by simp blast
qed

end
